theory Spec2Isabelle
  imports Complex_Main "HOL-Library.While_Combinator"
begin

section \<open>The maze game of game.js\<close>

text \<open>
  The script keeps the maze as an array of rows, \<open>maze[y][x]\<close>, with 1 for a wall and 0
  for a passage. A cell \<open>{x, y}\<close> of the script is the pair \<open>(x, y)\<close>. Coordinates are
  integers: the script computes \<open>c.x - 1\<close> first and tests \<open>x < 0\<close> afterwards.
\<close>

type_synonym cell = "int \<times> int"
type_synonym grid = "int list list"

text \<open>
  What a script call can do besides returning: raise \<open>TypeError\<close> (an index into
  \<open>undefined\<close>), raise \<open>RangeError\<close> (\<open>Array(w)\<close> with a negative length), or write
  an array at a column that is neither inside the row nor its next free index, which
  makes a sparse array or a named property; the model has no value for those and stops
  with \<open>SparseArray\<close>.
\<close>

datatype error = TypeError | RangeError | SparseArray

text \<open>
  \<open>a[y][x]\<close> read where row \<open>y\<close> exists: \<open>None\<close> is \<open>undefined\<close>. Every use below
  either compares the outcome with a number (\<open>undefined === 0\<close> is false) or has the
  row index inside the array.
\<close>

definition cellAt :: "'a list list \<Rightarrow> int \<Rightarrow> int \<Rightarrow> 'a option" where
  "cellAt a x y =
     (if 0 \<le> y \<and> y < int (length a) \<and> 0 \<le> x \<and> x < int (length (a ! nat y))
      then Some (a ! nat y ! nat x) else None)"

text \<open>\<open>a[y][x] = v\<close> at an index inside the array.\<close>

definition setCell :: "'a list list \<Rightarrow> int \<Rightarrow> int \<Rightarrow> 'a \<Rightarrow> 'a list list" where
  "setCell a x y v = a[nat y := (a ! nat y)[nat x := v]]"

text \<open>
  \<open>a[y][x] = v\<close> at any index: a missing row raises, the next free column grows the
  row by one.
\<close>

definition setCellJS :: "'a list list \<Rightarrow> int \<Rightarrow> int \<Rightarrow> 'a \<Rightarrow> error + 'a list list" where
  "setCellJS a x y v =
     (if y < 0 \<or> int (length a) \<le> y then Inl TypeError
      else if 0 \<le> x \<and> x < int (length (a ! nat y)) then Inr (setCell a x y v)
      else if x = int (length (a ! nat y)) then Inr (a[nat y := a ! nat y @ [v]])
      else Inl SparseArray)"

text \<open>\<open>rows = maze.length; cols = maze[0].length\<close>; both are 0 for the empty maze.\<close>

definition rows :: "grid \<Rightarrow> int" where
  "rows m = int (length m)"

definition cols :: "grid \<Rightarrow> int" where
  "cols m = (case m of [] \<Rightarrow> 0 | r # _ \<Rightarrow> int (length r))"

definition isWalkable :: "grid \<Rightarrow> int \<Rightarrow> int \<Rightarrow> bool" where
  "isWalkable m x y =
     (if x < 0 \<or> cols m \<le> x \<or> y < 0 \<or> rows m \<le> y then False
      else cellAt m x y = Some 0)"

section \<open>Maze generation\<close>

text \<open>
  \<open>Math.random()\<close> is a parameter: \<open>rnd k\<close> is the value of the \<open>k\<close>-th call, a number
  with \<open>0 \<le> rnd k < 1\<close>. Products and quotients of the script are taken in the reals;
  the rounding of the script's doubles is not modelled (it keeps
  \<open>Math.floor(Math.random() * n)\<close> inside \<open>0 .. n - 1\<close>, the one fact used about it).
  Neither are the limits of the machine (the longest array, memory).
\<close>

type_synonym rng = "nat \<Rightarrow> real"

definition rngOk :: "rng \<Rightarrow> bool" where
  "rngOk rnd = (\<forall>k. 0 \<le> rnd k \<and> rnd k < 1)"

text \<open>\<open>if (w % 2 === 0) w += 1\<close>\<close>

definition ensureOdd :: "int \<Rightarrow> int" where
  "ensureOdd n = (if n mod 2 = 0 then n + 1 else n)"

text \<open>
  \<open>Array.from({ length: h }, () => Array(w).fill(1))\<close>: no row is made for \<open>h \<le> 0\<close>;
  otherwise \<open>Array(w)\<close> raises for a negative \<open>w\<close>.
\<close>

definition allWalls :: "int \<Rightarrow> int \<Rightarrow> error + grid" where
  "allWalls w h =
     (if h \<le> 0 then Inr []
      else if w < 0 then Inl RangeError
      else Inr (replicate (nat h) (replicate (nat w) 1)))"

definition dirs2 :: "cell list" where
  "dirs2 = [(2, 0), (-2, 0), (0, 2), (0, -2)]"

text \<open>
  The shuffle: each direction gets a random key, the pairs are sorted by key (the sort
  of the script is stable, as \<open>sort_key\<close> is), the keys are dropped.
\<close>

definition shuffled :: "rng \<Rightarrow> nat \<Rightarrow> cell list" where
  "shuffled rnd k = map fst (sort_key snd (zip dirs2 (map rnd [k ..< k + 4])))"

text \<open>
  The \<open>for (const d of shuffled)\<close> loop up to its \<open>break\<close>: the first direction whose
  target is inside the border and not yet a passage.
\<close>

fun firstOpen :: "int \<Rightarrow> int \<Rightarrow> grid \<Rightarrow> cell \<Rightarrow> cell list \<Rightarrow> cell option" where
  "firstOpen w h g cur [] = None"
| "firstOpen w h g cur (d # ds) =
     (let nx = fst cur + fst d; ny = snd cur + snd d in
      if nx \<le> 0 \<or> ny \<le> 0 \<or> w - 1 \<le> nx \<or> h - 1 \<le> ny then firstOpen w h g cur ds
      else if cellAt g nx ny = Some 0 then firstOpen w h g cur ds
      else Some d)"

text \<open>
  One round of \<open>while (stack.length)\<close>. The state is the grid, the stack (its top is the
  last element) and the number of \<open>Math.random()\<close> calls made so far.
\<close>

definition carveStep :: "int \<Rightarrow> int \<Rightarrow> rng \<Rightarrow> grid \<times> cell list \<times> nat \<Rightarrow> grid \<times> cell list \<times> nat" where
  "carveStep w h rnd s =
     (case s of (g, stack, k) \<Rightarrow>
        let cur = last stack in
        case firstOpen w h g cur (shuffled rnd k) of
          None \<Rightarrow> (g, butlast stack, k + 4)
        | Some d \<Rightarrow>
            let nx = fst cur + fst d; ny = snd cur + snd d;
                wx = fst cur + fst d div 2; wy = snd cur + snd d div 2
            in (setCell (setCell g wx wy 0) nx ny 0, stack @ [(nx, ny)], k + 4))"

definition carveLoop :: "int \<Rightarrow> int \<Rightarrow> rng \<Rightarrow> grid \<times> cell list \<times> nat \<Rightarrow> (grid \<times> cell list \<times> nat) option" where
  "carveLoop w h rnd = while_option (\<lambda>(g, stack, k). stack \<noteq> []) (carveStep w h rnd)"

text \<open>
  The script up to the end of the carve loop: the grid at that point and the number of
  random values used. \<open>None\<close> would be a loop that never ends.
\<close>

definition carvePhase :: "int \<Rightarrow> int \<Rightarrow> rng \<Rightarrow> (error + grid \<times> nat) option" where
  "carvePhase w0 h0 rnd =
     (let w = ensureOdd w0; h = ensureOdd h0 in
      case allWalls w h of
        Inl e \<Rightarrow> Some (Inl e)
      | Inr g0 \<Rightarrow>
          (case setCellJS g0 1 1 0 of
             Inl e \<Rightarrow> Some (Inl e)
           | Inr g1 \<Rightarrow>
               (case carveLoop w h rnd (g1, [(1, 1)], 0) of
                  None \<Rightarrow> None
                | Some (g2, stack, k) \<Rightarrow> Some (Inr (g2, k)))))"

definition isOpen :: "grid \<Rightarrow> int \<Rightarrow> int \<Rightarrow> int" where
  "isOpen g x y = (if cellAt g x y = Some 0 then 1 else 0)"

text \<open>One round of the "soft walling" loop; the third random value is drawn only when
  \<open>openN >= 3\<close>.\<close>

definition softWallStep :: "int \<Rightarrow> int \<Rightarrow> rng \<Rightarrow> grid \<times> nat \<Rightarrow> grid \<times> nat" where
  "softWallStep w h rnd s =
     (case s of (g, k) \<Rightarrow>
        let x = 1 + \<lfloor>rnd k * real_of_int (w - 2)\<rfloor>;
            y = 1 + \<lfloor>rnd (k + 1) * real_of_int (h - 2)\<rfloor>
        in if cellAt g x y \<noteq> Some 0 then (g, k + 2)
           else
             let openN = isOpen g x (y - 1) + isOpen g x (y + 1)
                         + isOpen g (x - 1) y + isOpen g (x + 1) y
             in if 3 \<le> openN then
                  (if rnd (k + 2) < 1 / 4 then (setCell g x y 1, k + 3) else (g, k + 3))
                else (g, k + 2))"

definition softWalls :: "int \<Rightarrow> int \<Rightarrow> rng \<Rightarrow> grid \<times> nat \<Rightarrow> grid \<times> nat" where
  "softWalls w h rnd = (softWallStep w h rnd) ^^ 140"

text \<open>The two border loops.\<close>

definition ensureBorders :: "int \<Rightarrow> int \<Rightarrow> grid \<Rightarrow> grid" where
  "ensureBorders w h g =
     fold (\<lambda>y a. setCell (setCell a 0 y 1) (w - 1) y 1) [0 .. h - 1]
       (fold (\<lambda>x a. setCell (setCell a x 0 1) x (h - 1) 1) [0 .. w - 1] g)"

definition generatePerfectMaze :: "int \<Rightarrow> int \<Rightarrow> rng \<Rightarrow> (error + grid) option" where
  "generatePerfectMaze w0 h0 rnd =
     (case carvePhase w0 h0 rnd of
        None \<Rightarrow> None
      | Some (Inl e) \<Rightarrow> Some (Inl e)
      | Some (Inr (g, k)) \<Rightarrow>
          Some (Inr (ensureBorders (ensureOdd w0) (ensureOdd h0)
                  (fst (softWalls (ensureOdd w0) (ensureOdd h0) rnd (g, k))))))"

section \<open>Distances and key cells\<close>

definition dirs4 :: "cell list" where
  "dirs4 = [(1, 0), (-1, 0), (0, 1), (0, -1)]"

text \<open>
  \<open>nearestPassage\<close>: the state of its loop is the queue, the set \<open>seen\<close> (the script
  keeps the keys \<open>"x,y"\<close>) and the cell returned from inside the loop, if any.
\<close>

definition npVisit :: "grid \<Rightarrow> cell \<Rightarrow> cell \<Rightarrow> cell list \<times> cell set \<Rightarrow> cell list \<times> cell set" where
  "npVisit m c d s =
     (case s of (q, seen) \<Rightarrow>
        let nx = fst c + fst d; ny = snd c + snd d in
        if nx < 0 \<or> ny < 0 \<or> cols m \<le> nx \<or> rows m \<le> ny then (q, seen)
        else if (nx, ny) \<in> seen then (q, seen)
        else (q @ [(nx, ny)], insert (nx, ny) seen))"

definition npStep :: "grid \<Rightarrow> cell list \<times> cell set \<times> cell option \<Rightarrow> cell list \<times> cell set \<times> cell option" where
  "npStep m s =
     (case s of (q, seen, found) \<Rightarrow>
        let c = hd q in
        if isWalkable m (fst c) (snd c) then (tl q, seen, Some c)
        else case fold (npVisit m c) dirs4 (tl q, seen) of (q', seen') \<Rightarrow> (q', seen', None))"

definition nearestPassage :: "grid \<Rightarrow> int \<Rightarrow> int \<Rightarrow> cell option" where
  "nearestPassage m targetX targetY =
     (case while_option (\<lambda>(q, seen, found). q \<noteq> [] \<and> found = None) (npStep m)
             ([(targetX, targetY)], {(targetX, targetY)}, None) of
        None \<Rightarrow> None
      | Some (q, seen, found) \<Rightarrow> Some (case found of Some c \<Rightarrow> c | None \<Rightarrow> (1, 1)))"

text \<open>
  \<open>dist[c.y][c.x]\<close> for a cell that is in the array (the source, or a cell that was
  walkable when it was queued).
\<close>

definition distAt :: "int list list \<Rightarrow> cell \<Rightarrow> int" where
  "distAt dm c = dm ! nat (snd c) ! nat (fst c)"

definition relax :: "grid \<Rightarrow> cell \<Rightarrow> cell \<Rightarrow> int list list \<times> cell list \<Rightarrow> int list list \<times> cell list" where
  "relax m c d s =
     (case s of (dm, q) \<Rightarrow>
        let nx = fst c + fst d; ny = snd c + snd d in
        if \<not> isWalkable m nx ny then (dm, q)
        else if cellAt dm nx ny \<noteq> Some (- 1) then (dm, q)
        else (setCell dm nx ny (distAt dm c + 1), q @ [(nx, ny)]))"

definition bfsStep :: "grid \<Rightarrow> int list list \<times> cell list \<Rightarrow> int list list \<times> cell list" where
  "bfsStep m s = (case s of (dm, q) \<Rightarrow> fold (relax m (hd q)) dirs4 (dm, tl q))"

definition bfsLoop :: "grid \<Rightarrow> int list list \<times> cell list \<Rightarrow> (int list list \<times> cell list) option" where
  "bfsLoop m = while_option (\<lambda>(dm, q). q \<noteq> []) (bfsStep m)"

definition bfsDistances :: "grid \<Rightarrow> cell \<Rightarrow> (error + int list list) option" where
  "bfsDistances m from =
     (case setCellJS (replicate (nat (rows m)) (replicate (nat (cols m)) (- 1)))
             (fst from) (snd from) 0 of
        Inl e \<Rightarrow> Some (Inl e)
      | Inr dist0 \<Rightarrow>
          (case bfsLoop m (dist0, [from]) of
             None \<Rightarrow> None
           | Some (dm, q) \<Rightarrow> Some (Inr dm)))"

definition getAllPassages :: "grid \<Rightarrow> cell list" where
  "getAllPassages m =
     concat (map (\<lambda>y. map (\<lambda>x. (x, y)) (filter (\<lambda>x. cellAt m x y = Some 0) [0 .. cols m - 1]))
               [0 .. rows m - 1])"

text \<open>One round of the candy loop; the state is \<open>best\<close> (\<open>None\<close> is \<open>undefined\<close>, the
  value of \<open>passages[0]\<close> for an empty list) and \<open>bestScore\<close>.\<close>

definition candyScan :: "int list list \<Rightarrow> int list list \<Rightarrow> cell \<Rightarrow> cell option \<times> int \<Rightarrow> cell option \<times> int" where
  "candyScan dStart dExit c s =
     (case s of (best, bestScore) \<Rightarrow>
        let a = distAt dStart c; b = distAt dExit c in
        if a < 0 \<or> b < 0 then (best, bestScore)
        else if a < 40 then (best, bestScore)
        else if b < 40 then (best, bestScore)
        else
          let score = min a b * 10 + (a + b) in
          if bestScore < score then (Some c, score) else (best, bestScore))"

text \<open>One round of the exit loop; \<open>bestED\<close> holds the combined score of \<open>bestExit\<close>.\<close>

definition exitScan :: "grid \<Rightarrow> int list list \<Rightarrow> cell \<Rightarrow> cell \<times> real \<Rightarrow> cell \<times> real" where
  "exitScan m dCandy c s =
     (case s of (bestExit, bestED) \<Rightarrow>
        let dc = real_of_int (distAt dCandy c) in
        if bestED < dc then
          (let bias = real_of_int (fst c) / real_of_int (cols m)
                      + real_of_int (snd c) / real_of_int (rows m);
               combined = dc + bias * 15
           in if bestED < combined then (c, combined) else (bestExit, bestED))
        else (bestExit, bestED))"

definition bindR :: "(error + 'a) option \<Rightarrow> ('a \<Rightarrow> (error + 'b) option) \<Rightarrow> (error + 'b) option" where
  "bindR r f = (case r of None \<Rightarrow> None | Some (Inl e) \<Rightarrow> Some (Inl e) | Some (Inr v) \<Rightarrow> f v)"

text \<open>
  \<open>placeKeyCells\<close>, returning \<open>(startCell, exitCell, candyCell)\<close>.
  \<open>Math.floor(cols * 0.3)\<close> is \<open>3 * cols div 10\<close>.
\<close>

definition chooseCandy :: "grid \<Rightarrow> int list list \<Rightarrow> int list list \<Rightarrow> cell option" where
  "chooseCandy m dStart dExit =
     (let passages = getAllPassages m in
      case fold (candyScan dStart dExit) passages
             (case passages of [] \<Rightarrow> None | p # _ \<Rightarrow> Some p, - 1) of
        (best, bestScore) \<Rightarrow>
          (case (0 \<le> bestScore, best) of
             (True, Some c) \<Rightarrow> Some c
           | _ \<Rightarrow> nearestPassage m (3 * cols m div 10) (3 * rows m div 10)))"

definition chooseExit :: "grid \<Rightarrow> int list list \<Rightarrow> cell \<Rightarrow> cell" where
  "chooseExit m dCandy exit0 =
     (if distAt dCandy exit0 < 60
      then fst (fold (exitScan m dCandy) (getAllPassages m) (exit0, - 1))
      else exit0)"

definition placeKeyCells :: "grid \<Rightarrow> (error + cell \<times> cell \<times> cell) option" where
  "placeKeyCells m =
     bindR (map_option Inr (nearestPassage m 1 (rows m - 2))) (\<lambda>start.
     bindR (map_option Inr (nearestPassage m (cols m - 2) (rows m - 2))) (\<lambda>exit0.
     bindR (bfsDistances m start) (\<lambda>dStart.
     bindR (bfsDistances m exit0) (\<lambda>dExit.
     bindR (map_option Inr (chooseCandy m dStart dExit)) (\<lambda>candy.
     bindR (bfsDistances m candy) (\<lambda>dCandy.
       Some (Inr (start, chooseExit m dCandy exit0, candy))))))))"

section \<open>Movement and the progress flags\<close>

text \<open>
  The session holds the globals \<open>tryMove\<close> reads and writes. The rendering position
  \<open>px, py\<close> is left out: it is written by the animation and read by \<open>draw\<close> only.
  The list \<open>events\<close> records, in order, the two toasts and each call of \<open>finishMaze\<close>.
\<close>

datatype event = ToastCandyCollected | ToastFindCandyFirst | FinishMazeCalled

record session =
  maze :: grid
  exitCell :: cell
  candyCell :: cell
  cellX :: int
  cellY :: int
  moving :: bool
  hasCandy :: bool
  gameFinished :: bool
  queuedDir :: "string option"
  events :: "event list"

definition dirToDelta :: "string \<Rightarrow> cell option" where
  "dirToDelta dir =
     (if dir = ''up'' then Some (0, -1)
      else if dir = ''down'' then Some (0, 1)
      else if dir = ''left'' then Some (-1, 0)
      else if dir = ''right'' then Some (1, 0)
      else None)"

text \<open>
  \<open>tryMove\<close> up to the point where it hands \<open>animate\<close> to the browser: the logical
  position is already the target cell.
\<close>

definition tryMove :: "string \<Rightarrow> session \<Rightarrow> session" where
  "tryMove dir s =
     (if gameFinished s then s
      else if moving s then s\<lparr>queuedDir := Some dir\<rparr>
      else case dirToDelta dir of
        None \<Rightarrow> s
      | Some d \<Rightarrow>
          let nx = cellX s + fst d; ny = cellY s + snd d in
          if \<not> isWalkable (maze s) nx ny then s
          else s\<lparr>moving := True, queuedDir := None, cellX := nx, cellY := ny\<rparr>)"

definition finishMaze :: "session \<Rightarrow> session" where
  "finishMaze s =
     (let s' = s\<lparr>events := events s @ [FinishMazeCalled]\<rparr> in
      if gameFinished s' then s' else s'\<lparr>gameFinished := True\<rparr>)"

definition onCandy :: "session \<Rightarrow> bool" where
  "onCandy s = (cellX s = fst (candyCell s) \<and> cellY s = snd (candyCell s))"

definition onExit :: "session \<Rightarrow> bool" where
  "onExit s = (cellX s = fst (exitCell s) \<and> cellY s = snd (exitCell s))"

text \<open>The candy pickup of the last animation frame.\<close>

definition candyPickup :: "session \<Rightarrow> session" where
  "candyPickup s =
     (if \<not> hasCandy s \<and> onCandy s
      then s\<lparr>hasCandy := True, events := events s @ [ToastCandyCollected]\<rparr>
      else s)"

text \<open>
  The queue drain at the end of the last frame; \<open>if (queuedDir)\<close> is false for \<open>null\<close>
  and for the empty string.
\<close>

definition drainQueue :: "session \<Rightarrow> session" where
  "drainQueue s =
     (case queuedDir s of
        None \<Rightarrow> s
      | Some next \<Rightarrow> if next = [] then s else tryMove next (s\<lparr>queuedDir := None\<rparr>))"

text \<open>
  The last frame of \<open>animate\<close> (\<open>p = 1\<close>): the move ends, the candy is picked up, the
  exit is tested, and unless the maze is finished the queued direction is tried.
\<close>

definition animationDone :: "session \<Rightarrow> session" where
  "animationDone s =
     (let s1 = candyPickup (s\<lparr>moving := False\<rparr>) in
      if onExit s1 then
        (if \<not> hasCandy s1
         then drainQueue (s1\<lparr>events := events s1 @ [ToastFindCandyFirst]\<rparr>)
         else finishMaze s1)
      else drainQueue s1)"

text \<open>
  What happens to a session: a call of \<open>tryMove\<close>, or the last frame of the animation
  in flight (there is none unless \<open>moving\<close>).
\<close>

datatype input = TryMove string | LastFrame

fun step :: "session \<Rightarrow> input \<Rightarrow> session" where
  "step s (TryMove dir) = tryMove dir s"
| "step s LastFrame = (if moving s then animationDone s else s)"

definition run :: "input list \<Rightarrow> session \<Rightarrow> session" where
  "run ins s = foldl step s ins"

section \<open>Predicates and invariants of the proofs\<close>

definition rect :: "'a list list \<Rightarrow> int \<Rightarrow> int \<Rightarrow> bool" where
  "rect a w h = (int (length a) = h \<and> (\<forall>r \<in> set a. int (length r) = w))"

definition psg :: "grid \<Rightarrow> cell \<Rightarrow> bool" where
  "psg g p = (cellAt g (fst p) (snd p) = Some 0)"

definition inner :: "int \<Rightarrow> int \<Rightarrow> cell \<Rightarrow> bool" where
  "inner w h p = (0 < fst p \<and> fst p < w - 1 \<and> 0 < snd p \<and> snd p < h - 1)"

definition oddCell :: "cell \<Rightarrow> bool" where
  "oddCell p = (odd (fst p) \<and> odd (snd p))"

definition shapeInv :: "int \<Rightarrow> int \<Rightarrow> grid \<times> cell list \<times> nat \<Rightarrow> bool" where
  "shapeInv w h s =
     (case s of (g, stack, k) \<Rightarrow>
        rect g w h \<and> psg g (1, 1)
        \<and> (\<forall>p \<in> set stack. inner w h p \<and> oddCell p \<and> psg g p)
        \<and> (\<forall>p. psg g p \<longrightarrow> inner w h p \<and> (odd (fst p) \<or> odd (snd p))))"

definition wallsLeft :: "int \<Rightarrow> int \<Rightarrow> grid \<Rightarrow> cell set" where
  "wallsLeft w h g = {p. inner w h p \<and> \<not> psg g p}"

definition carveMeasure :: "int \<Rightarrow> int \<Rightarrow> grid \<times> cell list \<times> nat \<Rightarrow> nat" where
  "carveMeasure w h s = (case s of (g, stack, k) \<Rightarrow> 2 * card (wallsLeft w h g) + length stack)"

text \<open>The grid with the first cell carved.\<close>

definition startGrid :: "int \<Rightarrow> int \<Rightarrow> grid" where
  "startGrid w h = setCell (replicate (nat h) (replicate (nat w) 1)) 1 1 0"

definition openInv :: "int \<Rightarrow> int \<Rightarrow> grid \<Rightarrow> bool" where
  "openInv w h g = (rect g w h \<and> psg g (1, 1) \<and> (\<forall>p. psg g p \<longrightarrow> inner w h p))"

text \<open>The grid of a request of width 0 or 1: one column, and the cell carved first
  appended to row 1.\<close>

definition thinGrid :: "int \<Rightarrow> grid" where
  "thinGrid h = (replicate (nat h) [1])[1 := [1, 0]]"

definition adj4 :: "cell \<Rightarrow> cell \<Rightarrow> bool" where
  "adj4 p q = (\<exists>d \<in> set dirs4. q = (fst p + fst d, snd p + snd d))"

definition links :: "(cell \<Rightarrow> bool) \<Rightarrow> (cell \<times> cell) set" where
  "links P = {(p, q). P p \<and> P q \<and> adj4 p q}"

definition treeInv :: "int \<Rightarrow> int \<Rightarrow> grid \<times> cell list \<times> nat \<Rightarrow> bool" where
  "treeInv w h s =
     (case s of (g, stack, k) \<Rightarrow>
        (\<forall>p. psg g p \<longrightarrow> ((1, 1), p) \<in> (links (psg g))\<^sup>*)
        \<and> (\<forall>p. psg g p \<and> even (fst p) \<longrightarrow> psg g (fst p - 1, snd p) \<and> psg g (fst p + 1, snd p))
        \<and> (\<forall>p. psg g p \<and> even (snd p) \<longrightarrow> psg g (fst p, snd p - 1) \<and> psg g (fst p, snd p + 1))
        \<and> (\<forall>p. psg g p \<and> oddCell p \<and> p \<notin> set stack \<longrightarrow>
              (\<forall>d \<in> set dirs2. inner w h (fst p + fst d, snd p + snd d)
                 \<longrightarrow> psg g (fst p + fst d, snd p + snd d)))
        \<and> card {p. psg g p} + 1 = 2 * card {p. psg g p \<and> oddCell p})"

definition walk :: "grid \<Rightarrow> cell \<Rightarrow> bool" where
  "walk m p = isWalkable m (fst p) (snd p)"

definition inb :: "grid \<Rightarrow> cell \<Rightarrow> bool" where
  "inb m p = (0 \<le> fst p \<and> fst p < cols m \<and> 0 \<le> snd p \<and> snd p < rows m)"

definition hops :: "grid \<Rightarrow> (cell \<times> cell) set" where
  "hops m = {(u, v). walk m v \<and> adj4 u v}"

definition bfsInv :: "grid \<Rightarrow> cell \<Rightarrow> int list list \<times> cell list \<Rightarrow> bool" where
  "bfsInv m s st =
     (case st of (dm, F) \<Rightarrow>
        rect dm (cols m) (rows m) \<and> inb m s \<and> distAt dm s = 0
        \<and> (\<forall>v \<in> set F. inb m v \<and> distAt dm v \<noteq> - 1)
        \<and> (\<forall>v. inb m v \<and> distAt dm v \<noteq> - 1 \<longrightarrow>
              0 \<le> distAt dm v \<and> (s, v) \<in> hops m ^^ nat (distAt dm v)
              \<and> (\<forall>n. (s, v) \<in> hops m ^^ n \<longrightarrow> nat (distAt dm v) \<le> n))
        \<and> sorted (map (distAt dm) F)
        \<and> (\<forall>v \<in> set F. distAt dm v \<le> distAt dm (hd F) + 1)
        \<and> (\<forall>u v. inb m u \<and> distAt dm u \<noteq> - 1 \<and> u \<notin> set F \<and> (u, v) \<in> hops m
              \<longrightarrow> distAt dm v \<noteq> - 1)
        \<and> (\<forall>u n. F \<noteq> [] \<and> (s, u) \<in> hops m ^^ n \<and> int n < distAt dm (hd F)
              \<longrightarrow> distAt dm u \<noteq> - 1 \<and> u \<notin> set F))"

definition unseen :: "grid \<Rightarrow> int list list \<Rightarrow> cell set" where
  "unseen m dm = {v. inb m v \<and> distAt dm v = - 1}"

definition bfsMeasure :: "grid \<Rightarrow> int list list \<times> cell list \<Rightarrow> nat" where
  "bfsMeasure m st = (case st of (dm, q) \<Rightarrow> 2 * card (unseen m dm) + length q)"

text \<open>The array \<open>dist\<close> before the loop: \<open>- 1\<close> everywhere, 0 at the source.\<close>

definition dist0 :: "grid \<Rightarrow> cell \<Rightarrow> int list list" where
  "dist0 m s = setCell (replicate (nat (rows m)) (replicate (nat (cols m)) (- 1))) (fst s) (snd s) 0"

text \<open>The measure that falls with every round of the search of \<open>nearestPassage\<close>.\<close>

definition npMeasure :: "grid \<Rightarrow> cell list \<times> cell set \<times> cell option \<Rightarrow> nat" where
  "npMeasure m st = (case st of (q, seen, found) \<Rightarrow> 2 * card {v. inb m v \<and> v \<notin> seen} + length q)"

text \<open>The test of the candy loop: both distances are 40 or more.\<close>

definition candyOk :: "int list list \<Rightarrow> int list list \<Rightarrow> cell \<Rightarrow> bool" where
  "candyOk dStart dExit c = (40 \<le> distAt dStart c \<and> 40 \<le> distAt dExit c)"

text \<open>The score of the candy loop,
  \<open>min(distStart, distExit) * 10 + (distStart + distExit)\<close>.\<close>

definition candyScore :: "int list list \<Rightarrow> int list list \<Rightarrow> cell \<Rightarrow> int" where
  "candyScore dStart dExit c =
     min (distAt dStart c) (distAt dExit c) * 10 + (distAt dStart c + distAt dExit c)"



section \<open>Properties of the movement controller\<close>

lemma tryMove_flags:
  "gameFinished (tryMove dir s) = gameFinished s \<and> hasCandy (tryMove dir s) = hasCandy s
   \<and> events (tryMove dir s) = events s"
  by (simp add: tryMove_def Let_def split: option.splits)

lemma drainQueue_flags:
  "gameFinished (drainQueue s) = gameFinished s \<and> hasCandy (drainQueue s) = hasCandy s
   \<and> events (drainQueue s) = events s"
  by (simp add: drainQueue_def tryMove_flags split: option.splits)

lemma onExit_upd [simp]:
  "onExit (s\<lparr>moving := a\<rparr>) = onExit s"
  "onExit (s\<lparr>events := e\<rparr>) = onExit s"
  "onExit (s\<lparr>hasCandy := b\<rparr>) = onExit s"
  "onExit (s\<lparr>queuedDir := q\<rparr>) = onExit s"
  by (simp_all add: onExit_def)

lemma onCandy_upd [simp]:
  "onCandy (s\<lparr>moving := a\<rparr>) = onCandy s"
  "onCandy (s\<lparr>events := e\<rparr>) = onCandy s"
  "onCandy (s\<lparr>queuedDir := q\<rparr>) = onCandy s"
  by (simp_all add: onCandy_def)

lemma candyPickup_facts [simp]:
  "onExit (candyPickup s) = onExit s"
  "hasCandy (candyPickup s) = (hasCandy s \<or> onCandy s)"
  "gameFinished (candyPickup s) = gameFinished s"
  "queuedDir (candyPickup s) = queuedDir s"
  by (simp_all add: candyPickup_def)

lemma candyPickup_queuedDir:
  "candyPickup (s\<lparr>queuedDir := q\<rparr>) = (candyPickup s)\<lparr>queuedDir := q\<rparr>"
  by (simp add: candyPickup_def)

lemma finishMaze_queuedDir:
  "finishMaze (s\<lparr>queuedDir := q\<rparr>) = (finishMaze s)\<lparr>queuedDir := q\<rparr>"
  by (simp add: finishMaze_def Let_def)

lemma animationDone_gate:
  "gameFinished s \<longrightarrow> hasCandy s \<Longrightarrow> gameFinished (animationDone s) \<longrightarrow> hasCandy (animationDone s)"
  by (simp add: animationDone_def Let_def drainQueue_flags finishMaze_def)

lemma step_gate:
  "gameFinished s \<longrightarrow> hasCandy s \<Longrightarrow> gameFinished (step s i) \<longrightarrow> hasCandy (step s i)"
  by (cases i) (simp_all add: tryMove_flags animationDone_gate)

lemma run_gate:
  "gameFinished s \<longrightarrow> hasCandy s \<Longrightarrow> gameFinished (run ins s) \<longrightarrow> hasCandy (run ins s)"
  unfolding run_def
  by (induction ins arbitrary: s) (simp_all add: step_gate)

lemma animationDone_locked:
  "onExit s \<Longrightarrow> \<not> hasCandy s \<Longrightarrow> \<not> onCandy s \<Longrightarrow>
   animationDone s = drainQueue (s\<lparr>moving := False, events := events s @ [ToastFindCandyFirst]\<rparr>)"
  by (simp add: animationDone_def Let_def) (simp add: candyPickup_def)

lemma animationDone_finish_call:
  "FinishMazeCalled \<in> set (drop (length (events s)) (events (animationDone s)))
   \<longleftrightarrow> onExit s \<and> (hasCandy s \<or> onCandy s)"
  by (simp add: animationDone_def Let_def drainQueue_flags finishMaze_def)
     (simp add: candyPickup_def)

lemma animationDone_on_both:
  "onExit s \<Longrightarrow> \<not> hasCandy s \<Longrightarrow> onCandy s \<Longrightarrow>
   animationDone s
     = finishMaze (s\<lparr>moving := False, hasCandy := True,
                     events := events s @ [ToastCandyCollected]\<rparr>)"
  by (simp add: animationDone_def Let_def) (simp add: candyPickup_def)

text \<open>
  Claim C5 as stated fails where the exit cell is the candy cell: the move onto it with
  the candy not collected picks the candy up and finishes the maze in the same frame.
\<close>

theorem exit_on_candy_counterexample:
  "onExit \<lparr>maze = [[0, 0]], exitCell = (1, 0), candyCell = (1, 0), cellX = 1, cellY = 0,
      moving = True, hasCandy = False, gameFinished = False, queuedDir = None, events = []\<rparr>
   \<and> \<not> hasCandy \<lparr>maze = [[0, 0]], exitCell = (1, 0), candyCell = (1, 0), cellX = 1, cellY = 0,
      moving = True, hasCandy = False, gameFinished = False, queuedDir = None, events = []\<rparr>
   \<and> tryMove ''right'' \<lparr>maze = [[0, 0]], exitCell = (1, 0), candyCell = (1, 0), cellX = 0,
      cellY = 0, moving = False, hasCandy = False, gameFinished = False, queuedDir = None,
      events = []\<rparr>
     = \<lparr>maze = [[0, 0]], exitCell = (1, 0), candyCell = (1, 0), cellX = 1, cellY = 0,
      moving = True, hasCandy = False, gameFinished = False, queuedDir = None, events = []\<rparr>
   \<and> animationDone \<lparr>maze = [[0, 0]], exitCell = (1, 0), candyCell = (1, 0), cellX = 1,
      cellY = 0, moving = True, hasCandy = False, gameFinished = False, queuedDir = None,
      events = []\<rparr>
     = \<lparr>maze = [[0, 0]], exitCell = (1, 0), candyCell = (1, 0), cellX = 1, cellY = 0,
      moving = False, hasCandy = True, gameFinished = True, queuedDir = None,
      events = [ToastCandyCollected, FinishMazeCalled]\<rparr>"
  by (simp add: animationDone_def candyPickup_def onExit_def onCandy_def
      drainQueue_def finishMaze_def tryMove_def dirToDelta_def isWalkable_def cellAt_def
      rows_def cols_def Let_def)

text \<open>
  Claim C5 as amended. A session that starts unfinished is never finished without the
  candy flag, whatever the sequence of \<open>tryMove\<close> calls and animation ends. At the end of
  a move onto the exit cell with the candy not collected, where the exit cell is not the
  candy cell, both flags stay as they were: the move ends, the toast "Find the candy
  first!" is the only event and the queued direction is tried. Where the exit cell is
  the candy cell, the same frame picks the candy up first and then calls \<open>finishMaze\<close>.
  \<open>finishMaze\<close> is called in the last frame exactly when the player is on the exit cell
  and the candy flag is true at the exit test.
\<close>

theorem exit_locked_until_candy:
  assumes "\<not> gameFinished s0"
  shows "(gameFinished (run ins s0) \<longrightarrow> hasCandy (run ins s0))
       \<and> (onExit s \<and> \<not> hasCandy s \<and> \<not> onCandy s \<longrightarrow>
            animationDone s
              = drainQueue (s\<lparr>moving := False, events := events s @ [ToastFindCandyFirst]\<rparr>)
            \<and> gameFinished (animationDone s) = gameFinished s
            \<and> \<not> hasCandy (animationDone s)
            \<and> events (animationDone s) = events s @ [ToastFindCandyFirst])
       \<and> (onExit s \<and> \<not> hasCandy s \<and> onCandy s \<longrightarrow>
            animationDone s
              = finishMaze (s\<lparr>moving := False, hasCandy := True,
                              events := events s @ [ToastCandyCollected]\<rparr>)
            \<and> hasCandy (animationDone s)
            \<and> (\<not> gameFinished s \<longrightarrow> gameFinished (animationDone s)))
       \<and> (FinishMazeCalled \<in> set (drop (length (events s)) (events (animationDone s)))
            \<longleftrightarrow> onExit s \<and> hasCandy (candyPickup s))"
proof -
  have a: "gameFinished (run ins s0) \<longrightarrow> hasCandy (run ins s0)"
    using assms by (intro run_gate) simp
  have b: "onExit s \<and> \<not> hasCandy s \<and> \<not> onCandy s \<longrightarrow>
            animationDone s
              = drainQueue (s\<lparr>moving := False, events := events s @ [ToastFindCandyFirst]\<rparr>)
            \<and> gameFinished (animationDone s) = gameFinished s
            \<and> \<not> hasCandy (animationDone s)
            \<and> events (animationDone s) = events s @ [ToastFindCandyFirst]"
    by (simp add: animationDone_locked drainQueue_flags)
  have c: "onExit s \<and> \<not> hasCandy s \<and> onCandy s \<longrightarrow>
            animationDone s
              = finishMaze (s\<lparr>moving := False, hasCandy := True,
                              events := events s @ [ToastCandyCollected]\<rparr>)
            \<and> hasCandy (animationDone s)
            \<and> (\<not> gameFinished s \<longrightarrow> gameFinished (animationDone s))"
    by (simp add: animationDone_on_both finishMaze_def Let_def)
  have d: "FinishMazeCalled \<in> set (drop (length (events s)) (events (animationDone s)))
            \<longleftrightarrow> onExit s \<and> hasCandy (candyPickup s)"
    using animationDone_finish_call [of s] by simp
  show ?thesis
    by (intro conjI a b c d)
qed

theorem exit_locked_until_candy_witness:
  "\<not> gameFinished \<lparr>maze = [[0, 0, 0]], exitCell = (2, 0), candyCell = (0, 0), cellX = 1,
       cellY = 0, moving = False, hasCandy = False, gameFinished = False, queuedDir = None,
       events = []\<rparr>
   \<and> run [TryMove ''right'', LastFrame, TryMove ''left'', LastFrame, TryMove ''left'',
          LastFrame, TryMove ''right'', LastFrame, TryMove ''right'', LastFrame]
        \<lparr>maze = [[0, 0, 0]], exitCell = (2, 0), candyCell = (0, 0), cellX = 1,
         cellY = 0, moving = False, hasCandy = False, gameFinished = False, queuedDir = None,
         events = []\<rparr>
      = \<lparr>maze = [[0, 0, 0]], exitCell = (2, 0), candyCell = (0, 0), cellX = 2,
         cellY = 0, moving = False, hasCandy = True, gameFinished = True, queuedDir = None,
         events = [ToastFindCandyFirst, ToastCandyCollected, FinishMazeCalled]\<rparr>
   \<and> animationDone \<lparr>maze = [[0, 0, 0]], exitCell = (2, 0), candyCell = (0, 0), cellX = 2,
         cellY = 0, moving = True, hasCandy = False, gameFinished = False, queuedDir = None,
         events = []\<rparr>
      = \<lparr>maze = [[0, 0, 0]], exitCell = (2, 0), candyCell = (0, 0), cellX = 2,
         cellY = 0, moving = False, hasCandy = False, gameFinished = False, queuedDir = None,
         events = [ToastFindCandyFirst]\<rparr>"
  using exit_locked_until_candy [of
      "\<lparr>maze = [[0, 0, 0]], exitCell = (2, 0), candyCell = (0, 0), cellX = 1,
        cellY = 0, moving = False, hasCandy = False, gameFinished = False, queuedDir = None,
        events = []\<rparr>"
      "[TryMove ''right'', LastFrame, TryMove ''left'', LastFrame, TryMove ''left'',
        LastFrame, TryMove ''right'', LastFrame, TryMove ''right'', LastFrame]"
      "\<lparr>maze = [[0, 0, 0]], exitCell = (2, 0), candyCell = (0, 0), cellX = 2,
        cellY = 0, moving = True, hasCandy = False, gameFinished = False, queuedDir = None,
        events = []\<rparr>"]
  by (simp add: run_def animationDone_def candyPickup_def onExit_def onCandy_def
      drainQueue_def finishMaze_def tryMove_def dirToDelta_def isWalkable_def cellAt_def
      rows_def cols_def Let_def)

lemma tryMove_while_moving:
  "moving s \<Longrightarrow> \<not> gameFinished s \<Longrightarrow> tryMove d s = s\<lparr>queuedDir := Some d\<rparr>"
  by (simp add: tryMove_def)

lemma tryMove_finished: "gameFinished s \<Longrightarrow> tryMove d s = s"
  by (simp add: tryMove_def)

lemma drainQueue_Some:
  "d \<noteq> [] \<Longrightarrow> drainQueue (s\<lparr>queuedDir := Some d\<rparr>) = tryMove d (s\<lparr>queuedDir := None\<rparr>)"
  by (simp add: drainQueue_def)

lemma drainQueue_None: "drainQueue (s\<lparr>queuedDir := None\<rparr>) = s\<lparr>queuedDir := None\<rparr>"
  by (simp add: drainQueue_def)

lemma animationDone_queued:
  assumes "d \<noteq> []"
  shows "animationDone (s\<lparr>queuedDir := Some d\<rparr>)
           = (if onExit s \<and> hasCandy (candyPickup s)
              then (animationDone (s\<lparr>queuedDir := None\<rparr>))\<lparr>queuedDir := Some d\<rparr>
              else tryMove d (animationDone (s\<lparr>queuedDir := None\<rparr>)))"
proof -
  have m: "s\<lparr>queuedDir := q, moving := False\<rparr> = s\<lparr>moving := False, queuedDir := q\<rparr>" for q
    by simp
  have e: "t\<lparr>queuedDir := q, events := ev\<rparr> = t\<lparr>events := ev, queuedDir := q\<rparr>"
    for t :: session and q ev
    by simp
  have c: "candyPickup (s\<lparr>queuedDir := q, moving := False\<rparr>)
             = (candyPickup (s\<lparr>moving := False\<rparr>))\<lparr>queuedDir := q\<rparr>" for q
    by (simp only: m candyPickup_queuedDir)
  show ?thesis
    unfolding animationDone_def Let_def c
    using assms
    by (simp add: finishMaze_queuedDir e drainQueue_Some drainQueue_None)
qed

text \<open>
  Claim C6. While a move is in flight, \<open>tryMove\<close> only fills the one slot \<open>queuedDir\<close>,
  so a second request replaces the first. When the move in flight ends without finishing
  the maze, the outcome is one call of \<open>tryMove\<close> with the later direction on the state
  the move would have ended in with an empty slot; the earlier direction has no effect.
  When the move in flight finishes the maze, the slot is left as it is and no move is
  made (a call of \<open>tryMove\<close> would return at once in the finished session).
\<close>

theorem queued_direction_overwrites:
  assumes "moving s" and "\<not> gameFinished s" and "d2 \<noteq> []"
  shows "tryMove d2 (tryMove d1 s) = s\<lparr>queuedDir := Some d2\<rparr>
       \<and> (\<not> (onExit s \<and> hasCandy (candyPickup s)) \<longrightarrow>
            animationDone (tryMove d2 (tryMove d1 s))
              = tryMove d2 (animationDone (s\<lparr>queuedDir := None\<rparr>)))
       \<and> (onExit s \<and> hasCandy (candyPickup s) \<longrightarrow>
            animationDone (tryMove d2 (tryMove d1 s))
              = (animationDone (s\<lparr>queuedDir := None\<rparr>))\<lparr>queuedDir := Some d2\<rparr>
            \<and> tryMove d2 (animationDone (s\<lparr>queuedDir := None\<rparr>))
              = animationDone (s\<lparr>queuedDir := None\<rparr>))"
proof -
  have q: "tryMove d2 (tryMove d1 s) = s\<lparr>queuedDir := Some d2\<rparr>"
    using assms by (simp add: tryMove_while_moving)
  have f: "gameFinished (animationDone (s\<lparr>queuedDir := None\<rparr>))"
    if "onExit s \<and> hasCandy (candyPickup s)"
    using that by (simp add: animationDone_def Let_def finishMaze_def)
  show ?thesis
    using f by (auto simp: q animationDone_queued [OF assms(3)] tryMove_finished)
qed

theorem queued_direction_overwrites_witness:
  "moving \<lparr>maze = [[0, 0, 0], [0, 1, 1]], exitCell = (2, 0), candyCell = (0, 0),
       cellX = 1, cellY = 0, moving = True, hasCandy = False, gameFinished = False,
       queuedDir = None, events = []\<rparr>
   \<and> tryMove ''left'' (tryMove ''up''
        \<lparr>maze = [[0, 0, 0], [0, 1, 1]], exitCell = (2, 0), candyCell = (0, 0),
         cellX = 1, cellY = 0, moving = True, hasCandy = False, gameFinished = False,
         queuedDir = None, events = []\<rparr>)
      = \<lparr>maze = [[0, 0, 0], [0, 1, 1]], exitCell = (2, 0), candyCell = (0, 0),
         cellX = 1, cellY = 0, moving = True, hasCandy = False, gameFinished = False,
         queuedDir = Some ''left'', events = []\<rparr>
   \<and> animationDone (tryMove ''left'' (tryMove ''up''
        \<lparr>maze = [[0, 0, 0], [0, 1, 1]], exitCell = (2, 0), candyCell = (0, 0),
         cellX = 1, cellY = 0, moving = True, hasCandy = False, gameFinished = False,
         queuedDir = None, events = []\<rparr>))
      = \<lparr>maze = [[0, 0, 0], [0, 1, 1]], exitCell = (2, 0), candyCell = (0, 0),
         cellX = 0, cellY = 0, moving = True, hasCandy = False, gameFinished = False,
         queuedDir = None, events = []\<rparr>"
  using queued_direction_overwrites [of
      "\<lparr>maze = [[0, 0, 0], [0, 1, 1]], exitCell = (2, 0), candyCell = (0, 0),
        cellX = 1, cellY = 0, moving = True, hasCandy = False, gameFinished = False,
        queuedDir = None, events = []\<rparr>" "''left''" "''up''"]
  by (simp add: animationDone_def candyPickup_def onExit_def onCandy_def
      drainQueue_def finishMaze_def tryMove_def dirToDelta_def isWalkable_def cellAt_def
      rows_def cols_def Let_def)

section \<open>Properties of the generator\<close>

lemma cellAt_rect:
  "rect a w h \<Longrightarrow>
   cellAt a x y = (if 0 \<le> x \<and> x < w \<and> 0 \<le> y \<and> y < h then Some (a ! nat y ! nat x) else None)"
  by (auto simp: cellAt_def rect_def)

lemma rect_setCell: "rect a w h \<Longrightarrow> rect (setCell a x y v) w h"
proof (cases "nat y < length a")
  case True
  assume r: "rect a w h"
  have "set (a[nat y := (a ! nat y)[nat x := v]]) \<subseteq> insert ((a ! nat y)[nat x := v]) (set a)"
    by (rule set_update_subset_insert)
  moreover have "int (length ((a ! nat y)[nat x := v])) = w"
    using r True by (simp add: rect_def)
  ultimately show ?thesis
    using r by (auto simp: rect_def setCell_def)
next
  case False
  assume "rect a w h"
  then show ?thesis using False by (simp add: setCell_def list_update_beyond)
qed

lemma cellAt_setCell:
  assumes "rect a w h" "0 \<le> x" "x < w" "0 \<le> y" "y < h"
  shows "cellAt (setCell a x y v) x' y' = (if x' = x \<and> y' = y then Some v else cellAt a x' y')"
proof -
  have l1: "nat y < length a"
    using assms by (auto simp: rect_def)
  then have "a ! nat y \<in> set a" by simp
  then have l2: "nat x < length (a ! nat y)"
    using assms by (auto simp: rect_def)
  note l = l1 l2
  have "cellAt (setCell a x y v) x' y'
        = (if 0 \<le> x' \<and> x' < w \<and> 0 \<le> y' \<and> y' < h
           then Some (setCell a x y v ! nat y' ! nat x') else None)"
    by (rule cellAt_rect [OF rect_setCell [OF assms(1)]])
  also have "\<dots> = (if x' = x \<and> y' = y then Some v else cellAt a x' y')"
    using assms l
    by (auto simp: cellAt_rect [OF assms(1)] setCell_def nth_list_update nat_eq_iff)
  finally show ?thesis .
qed

lemma rect_replicate: "0 \<le> w \<Longrightarrow> 0 \<le> h \<Longrightarrow> rect (replicate (nat h) (replicate (nat w) v)) w h"
  by (auto simp: rect_def)

lemma cellAt_replicate:
  "cellAt (replicate (nat h) (replicate (nat w) v)) x y
   = (if 0 \<le> x \<and> x < w \<and> 0 \<le> y \<and> y < h then Some v else None)"
  by (auto simp: cellAt_def split: if_splits)

lemma set_shuffled: "set (shuffled rnd k) = set dirs2"
proof -
  have "set (shuffled rnd k) = fst ` set (zip dirs2 (map rnd [k ..< k + 4]))"
    by (simp add: shuffled_def)
  also have "\<dots> = set (map fst (zip dirs2 (map rnd [k ..< k + 4])))"
    by simp
  also have "map fst (zip dirs2 (map rnd [k ..< k + 4])) = dirs2"
    by (simp add: dirs2_def)
  finally show ?thesis .
qed

lemma firstOpen_None:
  "firstOpen w h g cur ds = None \<Longrightarrow> d \<in> set ds \<Longrightarrow>
   \<not> inner w h (fst cur + fst d, snd cur + snd d) \<or> psg g (fst cur + fst d, snd cur + snd d)"
  by (induction ds) (auto simp: Let_def inner_def psg_def split: if_splits)

lemma firstOpen_Some:
  "firstOpen w h g cur ds = Some d \<Longrightarrow>
   d \<in> set ds \<and> inner w h (fst cur + fst d, snd cur + snd d)
   \<and> \<not> psg g (fst cur + fst d, snd cur + snd d)"
  by (induction ds) (auto simp: Let_def inner_def psg_def split: if_splits)

text \<open>The effect of a carving round on the set of passages.\<close>

lemma carve_two:
  assumes r: "rect g w h" and a: "inner w h a" and b: "inner w h b"
  shows "rect (setCell (setCell g (fst a) (snd a) 0) (fst b) (snd b) 0) w h"
    and "psg (setCell (setCell g (fst a) (snd a) 0) (fst b) (snd b) 0) p
         \<longleftrightarrow> p = a \<or> p = b \<or> psg g p"
proof -
  have r1: "rect (setCell g (fst a) (snd a) 0) w h"
    by (rule rect_setCell [OF r])
  show "rect (setCell (setCell g (fst a) (snd a) 0) (fst b) (snd b) 0) w h"
    by (rule rect_setCell [OF r1])
  have ia: "0 \<le> fst a" "fst a < w" "0 \<le> snd a" "snd a < h"
    and ib: "0 \<le> fst b" "fst b < w" "0 \<le> snd b" "snd b < h"
    using a b by (auto simp: inner_def)
  show "psg (setCell (setCell g (fst a) (snd a) 0) (fst b) (snd b) 0) p
         \<longleftrightarrow> p = a \<or> p = b \<or> psg g p"
    unfolding psg_def cellAt_setCell [OF r1 ib] cellAt_setCell [OF r ia]
    by (auto simp: prod_eq_iff)
qed

lemma dirs2_cases:
  "d \<in> set dirs2 \<Longrightarrow> d = (2, 0) \<or> d = (- 2, 0) \<or> d = (0, 2) \<or> d = (0, - 2)"
  by (auto simp: dirs2_def)

lemma between_inner:
  assumes "inner w h c" "d \<in> set dirs2" "inner w h (fst c + fst d, snd c + snd d)"
  shows "inner w h (fst c + fst d div 2, snd c + snd d div 2)"
  using assms dirs2_cases [OF assms(2)] by (auto simp: inner_def)

lemma shapeInv_step:
  assumes inv: "shapeInv w h (g, stack, k)" and ne: "stack \<noteq> []"
  shows "shapeInv w h (carveStep w h rnd (g, stack, k))"
proof (cases "firstOpen w h g (last stack) (shuffled rnd k)")
  case None
  have "set (butlast stack) \<subseteq> set stack"
    by (auto dest: in_set_butlastD)
  then show ?thesis
    using inv None by (auto simp: shapeInv_def carveStep_def Let_def)
next
  case (Some d)
  let ?c = "last stack"
  let ?n = "(fst ?c + fst d, snd ?c + snd d)"
  let ?b = "(fst ?c + fst d div 2, snd ?c + snd d div 2)"
  let ?g = "setCell (setCell g (fst ?c + fst d div 2) (snd ?c + snd d div 2) 0)
              (fst ?c + fst d) (snd ?c + snd d) 0"
  have c: "inner w h ?c" "oddCell ?c" "psg g ?c"
    using inv ne by (auto simp: shapeInv_def)
  have d: "d \<in> set dirs2" and n: "inner w h ?n"
    using firstOpen_Some [OF Some] by (auto simp: set_shuffled)
  have b: "inner w h ?b"
    by (rule between_inner [OF c(1) d n])
  have r: "rect g w h"
    using inv by (simp add: shapeInv_def)
  have p: "psg ?g p \<longleftrightarrow> p = ?b \<or> p = ?n \<or> psg g p" for p
    using carve_two(2) [OF r b n] by simp
  have on: "oddCell ?n" and ob: "odd (fst ?b) \<or> odd (snd ?b)"
    using c(2) dirs2_cases [OF d] by (auto simp: oddCell_def)
  have step: "carveStep w h rnd (g, stack, k) = (?g, stack @ [?n], k + 4)"
    using Some by (simp add: carveStep_def Let_def)
  have "rect ?g w h"
    using carve_two(1) [OF r b n] by simp
  moreover have "psg ?g (1, 1)"
    using inv by (simp add: p shapeInv_def)
  moreover have "\<forall>q \<in> set (stack @ [?n]). inner w h q \<and> oddCell q \<and> psg ?g q"
    using inv n on by (auto simp: p shapeInv_def)
  moreover have "\<forall>q. psg ?g q \<longrightarrow> inner w h q \<and> (odd (fst q) \<or> odd (snd q))"
    using inv n on b ob by (auto simp: p shapeInv_def oddCell_def)
  ultimately show ?thesis
    unfolding step shapeInv_def by simp
qed

lemma finite_inner: "finite {p. inner w h p}"
proof -
  have "{p. inner w h p} \<subseteq> {0 .. w} \<times> {0 .. h}"
    by (auto simp: inner_def)
  then show ?thesis
    by (rule finite_subset) simp
qed

lemma carveMeasure_step:
  assumes inv: "shapeInv w h (g, stack, k)" and ne: "stack \<noteq> []"
  shows "carveMeasure w h (carveStep w h rnd (g, stack, k)) < carveMeasure w h (g, stack, k)"
proof (cases "firstOpen w h g (last stack) (shuffled rnd k)")
  case None
  then show ?thesis
    using ne by (simp add: carveMeasure_def carveStep_def)
next
  case (Some d)
  let ?c = "last stack"
  let ?n = "(fst ?c + fst d, snd ?c + snd d)"
  let ?b = "(fst ?c + fst d div 2, snd ?c + snd d div 2)"
  let ?g = "setCell (setCell g (fst ?c + fst d div 2) (snd ?c + snd d div 2) 0)
              (fst ?c + fst d) (snd ?c + snd d) 0"
  have c: "inner w h ?c"
    using inv ne by (auto simp: shapeInv_def)
  have d: "d \<in> set dirs2" and n: "inner w h ?n" and nn: "\<not> psg g ?n"
    using firstOpen_Some [OF Some] by (auto simp: set_shuffled)
  have b: "inner w h ?b"
    by (rule between_inner [OF c d n])
  have r: "rect g w h"
    using inv by (simp add: shapeInv_def)
  have p: "psg ?g p \<longleftrightarrow> p = ?b \<or> p = ?n \<or> psg g p" for p
    using carve_two(2) [OF r b n] by simp
  have "wallsLeft w h ?g \<subseteq> wallsLeft w h g - {?n}"
    by (auto simp: wallsLeft_def p)
  moreover have "?n \<in> wallsLeft w h g"
    using n nn by (simp add: wallsLeft_def)
  moreover have "finite (wallsLeft w h g)"
    unfolding wallsLeft_def by (rule finite_subset [OF _ finite_inner [of w h]]) auto
  ultimately have "card (wallsLeft w h ?g) < card (wallsLeft w h g)"
    using card_mono [of "wallsLeft w h g - {?n}" "wallsLeft w h ?g"]
      card_Diff1_less [of "wallsLeft w h g" ?n]
    by simp
  then show ?thesis
    using Some by (simp add: carveMeasure_def carveStep_def Let_def)
qed

lemma carveLoop_ends:
  assumes "shapeInv w h s"
  shows "\<exists>g k. carveLoop w h rnd s = Some (g, [], k) \<and> shapeInv w h (g, [], k)"
proof -
  have "\<exists>t. while_option (\<lambda>(g, stack, k). stack \<noteq> []) (carveStep w h rnd) s = Some t"
  proof (rule measure_while_option_Some [where P = "shapeInv w h" and f = "carveMeasure w h"])
    fix s :: "grid \<times> cell list \<times> nat"
    assume "shapeInv w h s" and "case s of (g, stack, k) \<Rightarrow> stack \<noteq> []"
    then show "shapeInv w h (carveStep w h rnd s)
               \<and> carveMeasure w h (carveStep w h rnd s) < carveMeasure w h s"
      by (cases s) (simp add: shapeInv_step carveMeasure_step)
  qed (rule assms)
  then obtain t where t: "carveLoop w h rnd s = Some t"
    by (auto simp: carveLoop_def)
  have "shapeInv w h t"
  proof (rule while_option_rule [where P = "shapeInv w h", OF _ t [unfolded carveLoop_def] assms])
    fix s :: "grid \<times> cell list \<times> nat"
    assume "shapeInv w h s" and "case s of (g, stack, k) \<Rightarrow> stack \<noteq> []"
    then show "shapeInv w h (carveStep w h rnd s)"
      by (cases s) (simp add: shapeInv_step)
  qed
  moreover have "\<not> (case t of (g, stack, k) \<Rightarrow> stack \<noteq> [])"
    by (rule while_option_stop [OF t [unfolded carveLoop_def]])
  ultimately show ?thesis
    using t by (cases t) auto
qed

lemma ensureOdd_ge: "2 \<le> n \<Longrightarrow> 3 \<le> ensureOdd n \<and> odd (ensureOdd n)"
  by (auto simp: ensureOdd_def) presburger+

lemma startGrid_shape:
  assumes "3 \<le> w" "3 \<le> h"
  shows "shapeInv w h (startGrid w h, [(1, 1)], 0)"
    and "psg (startGrid w h) p \<longleftrightarrow> p = (1, 1)"
proof -
  have r: "rect (replicate (nat h) (replicate (nat w) (1::int))) w h"
    using assms by (intro rect_replicate) auto
  have i: "(0::int) \<le> 1" "1 < w" "(0::int) \<le> 1" "1 < h"
    using assms by auto
  show p: "psg (startGrid w h) p \<longleftrightarrow> p = (1, 1)" for p
    unfolding psg_def startGrid_def cellAt_setCell [OF r i]
    by (auto simp: cellAt_replicate prod_eq_iff)
  have "rect (startGrid w h) w h"
    unfolding startGrid_def by (rule rect_setCell [OF r])
  then show "shapeInv w h (startGrid w h, [(1, 1)], 0)"
    using assms by (auto simp: shapeInv_def p inner_def oddCell_def)
qed

lemma carvePhase_unfold:
  assumes "3 \<le> ensureOdd w0" "3 \<le> ensureOdd h0"
  shows "carvePhase w0 h0 rnd
         = (case carveLoop (ensureOdd w0) (ensureOdd h0) rnd
                  (startGrid (ensureOdd w0) (ensureOdd h0), [(1, 1)], 0) of
              None \<Rightarrow> None | Some (g2, stack, k) \<Rightarrow> Some (Inr (g2, k)))"
  using assms
  by (simp add: carvePhase_def Let_def allWalls_def setCellJS_def startGrid_def)

lemma carvePhase_shape:
  assumes "2 \<le> w0" "2 \<le> h0"
  shows "\<exists>g k. carvePhase w0 h0 rnd = Some (Inr (g, k))
           \<and> carveLoop (ensureOdd w0) (ensureOdd h0) rnd
                (startGrid (ensureOdd w0) (ensureOdd h0), [(1, 1)], 0) = Some (g, [], k)
           \<and> shapeInv (ensureOdd w0) (ensureOdd h0) (g, [], k)"
proof -
  have w: "3 \<le> ensureOdd w0" and h: "3 \<le> ensureOdd h0"
    using assms ensureOdd_ge by auto
  obtain g k where
    "carveLoop (ensureOdd w0) (ensureOdd h0) rnd
       (startGrid (ensureOdd w0) (ensureOdd h0), [(1, 1)], 0) = Some (g, [], k)"
    "shapeInv (ensureOdd w0) (ensureOdd h0) (g, [], k)"
    using carveLoop_ends [OF startGrid_shape(1) [OF w h]] by blast
  then show ?thesis
    by (simp add: carvePhase_unfold [OF w h])
qed

lemma isOpen_outside: "openInv w h g \<Longrightarrow> \<not> inner w h (x, y) \<Longrightarrow> isOpen g x y = 0"
  by (auto simp: openInv_def isOpen_def psg_def)

lemma isOpen_le: "isOpen g x y \<le> 1"
  by (simp add: isOpen_def)

lemma softWallStep_inv:
  assumes "openInv w h g"
  shows "openInv w h (fst (softWallStep w h rnd (g, k)))"
proof -
  define x where "x = 1 + \<lfloor>rnd k * real_of_int (w - 2)\<rfloor>"
  define y where "y = 1 + \<lfloor>rnd (k + 1) * real_of_int (h - 2)\<rfloor>"
  define openN where
    "openN = isOpen g x (y - 1) + isOpen g x (y + 1) + isOpen g (x - 1) y + isOpen g (x + 1) y"
  have s: "fst (softWallStep w h rnd (g, k))
           = (if cellAt g x y = Some 0 \<and> 3 \<le> openN \<and> rnd (k + 2) < 1 / 4
              then setCell g x y 1 else g)"
    by (simp add: softWallStep_def Let_def x_def y_def openN_def)
  show ?thesis
  proof (cases "cellAt g x y = Some 0 \<and> 3 \<le> openN \<and> rnd (k + 2) < 1 / 4")
    case False
    then have "fst (softWallStep w h rnd (g, k)) = g"
      unfolding s by (rule if_not_P)
    then show ?thesis using assms by simp
  next
    case True
    have r: "rect g w h" using assms by (simp add: openInv_def)
    have "psg g (x, y)" using True by (simp add: psg_def)
    then have i: "inner w h (x, y)" using assms by (simp add: openInv_def)
    then have b: "0 \<le> x" "x < w" "0 \<le> y" "y < h"
      by (auto simp: inner_def)
    have p: "psg (setCell g x y 1) q \<longleftrightarrow> q \<noteq> (x, y) \<and> psg g q" for q
      unfolding psg_def cellAt_setCell [OF r b] by (auto simp: prod_eq_iff)
    have "(x, y) \<noteq> (1, 1)"
    proof
      assume "(x, y) = (1, 1)"
      then have "openN = isOpen g 1 0 + isOpen g 1 2 + isOpen g 0 1 + isOpen g 2 1"
        by (simp add: openN_def)
      moreover have "isOpen g 1 0 = 0" "isOpen g 0 1 = 0"
        using assms by (auto intro!: isOpen_outside simp: inner_def)
      ultimately have "openN \<le> 2"
        using isOpen_le [of g 1 2] isOpen_le [of g 2 1] by simp
      then show False using True by simp
    qed
    moreover have "rect (setCell g x y 1) w h"
      by (rule rect_setCell [OF r])
    moreover have "fst (softWallStep w h rnd (g, k)) = setCell g x y 1"
      using True unfolding s by (rule if_P)
    ultimately show ?thesis
      using assms by (auto simp: openInv_def p)
  qed
qed

lemma softWalls_inv:
  assumes "openInv w h g"
  shows "openInv w h (fst (((softWallStep w h rnd) ^^ n) (g, k)))"
proof (induction n)
  case 0
  then show ?case using assms by simp
next
  case (Suc n)
  then show ?case
    using softWallStep_inv [of w h "fst (((softWallStep w h rnd) ^^ n) (g, k))" rnd
        "snd (((softWallStep w h rnd) ^^ n) (g, k))"]
    by simp
qed

lemma borderRows:
  assumes "rect g w h" "\<forall>x \<in> set xs. 0 \<le> x \<and> x < w" "0 < h"
  shows "rect (fold (\<lambda>x a. setCell (setCell a x 0 1) x (h - 1) 1) xs g) w h
       \<and> (\<forall>x' y'. cellAt (fold (\<lambda>x a. setCell (setCell a x 0 1) x (h - 1) 1) xs g) x' y'
             = (if x' \<in> set xs \<and> (y' = 0 \<or> y' = h - 1) then Some 1 else cellAt g x' y'))"
  using assms
proof (induction xs arbitrary: g)
  case Nil
  then show ?case by simp
next
  case (Cons x xs)
  let ?g = "setCell (setCell g x 0 1) x (h - 1) 1"
  have r1: "rect (setCell g x 0 1) w h"
    by (rule rect_setCell [OF Cons.prems(1)])
  have r2: "rect ?g w h"
    by (rule rect_setCell [OF r1])
  have x: "0 \<le> x" "x < w" using Cons.prems(2) by auto
  have h: "(0::int) \<le> 0" "0 < h" "0 \<le> h - 1" "h - 1 < h" using Cons.prems(3) by auto
  have c: "cellAt ?g x' y' = (if x' = x \<and> (y' = 0 \<or> y' = h - 1) then Some 1 else cellAt g x' y')"
    for x' y'
    unfolding cellAt_setCell [OF r1 x h(3,4)] cellAt_setCell [OF Cons.prems(1) x h(1,2)]
    by auto
  have "\<forall>x \<in> set xs. 0 \<le> x \<and> x < w" using Cons.prems(2) by simp
  from Cons.IH [OF r2 this Cons.prems(3)] show ?case
    by (auto simp: c)
qed

lemma borderCols:
  assumes "rect g w h" "\<forall>y \<in> set ys. 0 \<le> y \<and> y < h" "0 < w"
  shows "rect (fold (\<lambda>y a. setCell (setCell a 0 y 1) (w - 1) y 1) ys g) w h
       \<and> (\<forall>x' y'. cellAt (fold (\<lambda>y a. setCell (setCell a 0 y 1) (w - 1) y 1) ys g) x' y'
             = (if y' \<in> set ys \<and> (x' = 0 \<or> x' = w - 1) then Some 1 else cellAt g x' y'))"
  using assms
proof (induction ys arbitrary: g)
  case Nil
  then show ?case by simp
next
  case (Cons y ys)
  let ?g = "setCell (setCell g 0 y 1) (w - 1) y 1"
  have r1: "rect (setCell g 0 y 1) w h"
    by (rule rect_setCell [OF Cons.prems(1)])
  have r2: "rect ?g w h"
    by (rule rect_setCell [OF r1])
  have y: "0 \<le> y" "y < h" using Cons.prems(2) by auto
  have w: "(0::int) \<le> 0" "0 < w" "0 \<le> w - 1" "w - 1 < w" using Cons.prems(3) by auto
  have c: "cellAt ?g x' y' = (if y' = y \<and> (x' = 0 \<or> x' = w - 1) then Some 1 else cellAt g x' y')"
    for x' y'
    unfolding cellAt_setCell [OF r1 w(3,4) y] cellAt_setCell [OF Cons.prems(1) w(1,2) y]
    by auto
  have "\<forall>y \<in> set ys. 0 \<le> y \<and> y < h" using Cons.prems(2) by simp
  from Cons.IH [OF r2 this Cons.prems(3)] show ?case
    by (auto simp: c)
qed

lemma ensureBorders_cells:
  assumes "rect g w h" "0 < w" "0 < h"
  shows "rect (ensureBorders w h g) w h"
    and "cellAt (ensureBorders w h g) x y
         = (if 0 \<le> x \<and> x < w \<and> 0 \<le> y \<and> y < h \<and> (x = 0 \<or> x = w - 1 \<or> y = 0 \<or> y = h - 1)
            then Some 1 else cellAt g x y)"
proof -
  let ?g = "fold (\<lambda>x a. setCell (setCell a x 0 1) x (h - 1) 1) [0 .. w - 1] g"
  have xs: "\<forall>x \<in> set [0 .. w - 1]. 0 \<le> x \<and> x < w" by auto
  have ys: "\<forall>y \<in> set [0 .. h - 1]. 0 \<le> y \<and> y < h" by auto
  note a = borderRows [OF assms(1) xs assms(3)]
  note b = borderCols [OF conjunct1 [OF a] ys assms(2)]
  show "rect (ensureBorders w h g) w h"
    using b by (simp add: ensureBorders_def)
  have o: "cellAt g x y = None" if "\<not> (0 \<le> x \<and> x < w \<and> 0 \<le> y \<and> y < h)"
    using that by (auto simp: cellAt_rect [OF assms(1)])
  show "cellAt (ensureBorders w h g) x y
         = (if 0 \<le> x \<and> x < w \<and> 0 \<le> y \<and> y < h \<and> (x = 0 \<or> x = w - 1 \<or> y = 0 \<or> y = h - 1)
            then Some 1 else cellAt g x y)"
    unfolding ensureBorders_def conjunct2 [OF b, rule_format] conjunct2 [OF a, rule_format]
    using o assms(2,3) by auto
qed

text \<open>The shape of the returned grid, for requested sizes from 2 on.\<close>

lemma generatePerfectMaze_shape:
  assumes "2 \<le> w0" "2 \<le> h0"
  shows "\<exists>g. generatePerfectMaze w0 h0 rnd = Some (Inr g)
           \<and> rect g (ensureOdd w0) (ensureOdd h0)
           \<and> psg g (1, 1)
           \<and> (\<forall>x y. 0 \<le> x \<and> x < ensureOdd w0 \<and> 0 \<le> y \<and> y < ensureOdd h0
                  \<and> (x = 0 \<or> x = ensureOdd w0 - 1 \<or> y = 0 \<or> y = ensureOdd h0 - 1)
                \<longrightarrow> cellAt g x y = Some 1)"
proof -
  let ?w = "ensureOdd w0" and ?h = "ensureOdd h0"
  have w: "3 \<le> ?w" and h: "3 \<le> ?h"
    using assms ensureOdd_ge by auto
  obtain g k where c: "carvePhase w0 h0 rnd = Some (Inr (g, k))"
    and s: "shapeInv ?w ?h (g, [], k)"
    using carvePhase_shape [OF assms] by blast
  let ?g = "fst (softWalls ?w ?h rnd (g, k))"
  have "openInv ?w ?h g"
    using s by (simp add: shapeInv_def openInv_def)
  then have o: "openInv ?w ?h ?g"
    unfolding softWalls_def by (rule softWalls_inv)
  then have r: "rect ?g ?w ?h" by (simp add: openInv_def)
  have pos: "0 < ?w" "0 < ?h" using w h by auto
  note e = ensureBorders_cells [OF r pos]
  have "psg (ensureBorders ?w ?h ?g) (1, 1)"
    using o w h by (simp add: psg_def e(2) openInv_def)
  moreover have "generatePerfectMaze w0 h0 rnd = Some (Inr (ensureBorders ?w ?h ?g))"
    using c by (simp add: generatePerfectMaze_def)
  ultimately show ?thesis
    using e(1) by (simp add: e(2))
qed

lemma cols_rect: "rect g w h \<Longrightarrow> 0 < h \<Longrightarrow> cols g = w"
  by (cases g) (auto simp: rect_def cols_def)

lemma rows_rect: "rect g w h \<Longrightarrow> rows g = h"
  by (simp add: rect_def rows_def)

lemma ensureOdd_parity: "ensureOdd n = (if even n then n + 1 else n)"
  by (simp add: ensureOdd_def even_iff_mod_2_eq_zero)

lemma thinGrid_nth:
  "i < nat h \<Longrightarrow> thinGrid h ! i = (if i = 1 then [1, 0] else [1])"
  by (simp add: thinGrid_def nth_list_update)

lemma thinGrid_cellAt:
  "cellAt (thinGrid h) x y
   = (if 0 \<le> y \<and> y < h \<and> x = 0 then Some 1
      else if y = 1 \<and> 1 < h \<and> x = 1 then Some 0 else None)"
proof (cases "0 \<le> y \<and> y < h")
  case True
  then have "nat y < nat h" by simp
  from thinGrid_nth [OF this] True show ?thesis
    by (auto simp: cellAt_def thinGrid_def nat_eq_iff)
next
  case False
  then show ?thesis by (auto simp: cellAt_def thinGrid_def)
qed

lemma thinGrid_setCell:
  assumes "0 \<le> y" "y < h"
  shows "setCell (thinGrid h) 0 y 1 = thinGrid h"
proof -
  have l: "nat y < nat h" using assms by simp
  have "(thinGrid h ! nat y)[nat 0 := 1] = thinGrid h ! nat y"
    by (simp add: thinGrid_nth [OF l])
  then show ?thesis
    by (simp add: setCell_def)
qed

lemma firstOpen_thin: "firstOpen 1 h g cur ds = None"
  by (induction ds) (auto simp: Let_def)

lemma carveLoop_thin: "carveLoop 1 h rnd (g, [c], k) = Some (g, [], k + 4)"
proof -
  have "carveStep 1 h rnd (g, [c], k) = (g, [], k + 4)"
    by (simp add: carveStep_def firstOpen_thin)
  then show ?thesis
    unfolding carveLoop_def
    by (subst while_option_unfold, simp, subst while_option_unfold, simp)
qed

lemma softWallStep_thin: "fst (softWallStep w h rnd (thinGrid h', k)) = thinGrid h'"
proof -
  define x where "x = 1 + \<lfloor>rnd k * real_of_int (w - 2)\<rfloor>"
  define y where "y = 1 + \<lfloor>rnd (k + 1) * real_of_int (h - 2)\<rfloor>"
  define openN where
    "openN = isOpen (thinGrid h') x (y - 1) + isOpen (thinGrid h') x (y + 1)
             + isOpen (thinGrid h') (x - 1) y + isOpen (thinGrid h') (x + 1) y"
  have s: "fst (softWallStep w h rnd (thinGrid h', k))
           = (if cellAt (thinGrid h') x y = Some 0 \<and> 3 \<le> openN \<and> rnd (k + 2) < 1 / 4
              then setCell (thinGrid h') x y 1 else thinGrid h')"
    by (simp add: softWallStep_def Let_def x_def y_def openN_def)
  have "openN = 0" if "cellAt (thinGrid h') x y = Some 0"
  proof -
    have "x = 1 \<and> y = 1"
      using that by (auto simp: thinGrid_cellAt split: if_splits)
    then show ?thesis
      by (simp add: openN_def isOpen_def thinGrid_cellAt)
  qed
  then have "\<not> (cellAt (thinGrid h') x y = Some 0 \<and> 3 \<le> openN \<and> rnd (k + 2) < 1 / 4)"
    by auto
  then show ?thesis
    unfolding s by (rule if_not_P)
qed

lemma softWalls_thin: "fst (((softWallStep w h rnd) ^^ n) (thinGrid h', k)) = thinGrid h'"
proof (induction n)
  case 0
  then show ?case by simp
next
  case (Suc n)
  then show ?case
    using softWallStep_thin [of w h rnd h' "snd (((softWallStep w h rnd) ^^ n) (thinGrid h', k))"]
    by (metis comp_apply funpow.simps(2) prod.collapse)
qed

lemma fold_fixed: "(\<And>x. x \<in> set xs \<Longrightarrow> f x a = a) \<Longrightarrow> fold f xs a = a"
  by (induction xs) auto

lemma ensureBorders_thin:
  assumes "0 < h"
  shows "ensureBorders 1 h (thinGrid h) = thinGrid h"
proof -
  have a: "fold (\<lambda>x a. setCell (setCell a x 0 1) x (h - 1) 1) [0 .. 1 - 1] (thinGrid h) = thinGrid h"
    using assms by (intro fold_fixed) (simp add: thinGrid_setCell)
  have b: "fold (\<lambda>y a. setCell (setCell a 0 y 1) (1 - 1) y 1) [0 .. h - 1] (thinGrid h) = thinGrid h"
    by (intro fold_fixed) (simp add: thinGrid_setCell)
  show ?thesis
    unfolding ensureBorders_def a b ..
qed

lemma generatePerfectMaze_thin:
  assumes "ensureOdd w0 = 1" "3 \<le> ensureOdd h0"
  shows "generatePerfectMaze w0 h0 rnd = Some (Inr (thinGrid (ensureOdd h0)))"
proof -
  let ?h = "ensureOdd h0"
  have "setCellJS (replicate (nat ?h) [1::int]) 1 1 0 = Inr (thinGrid ?h)"
    using assms(2) by (simp add: setCellJS_def thinGrid_def)
  then have "carvePhase w0 h0 rnd = Some (Inr (thinGrid ?h, 4))"
    using assms by (simp add: carvePhase_def Let_def allWalls_def carveLoop_thin)
  then show ?thesis
    using assms ensureBorders_thin [of ?h]
    by (simp add: generatePerfectMaze_def softWalls_def softWalls_thin)
qed

text \<open>When the script returns a grid at all.\<close>

lemma generatePerfectMaze_returns:
  assumes "generatePerfectMaze w0 h0 rnd = Some (Inr g)"
  shows "3 \<le> ensureOdd h0 \<and> (ensureOdd w0 = 1 \<or> 3 \<le> ensureOdd w0)"
proof -
  have o: "odd (ensureOdd w0)" "odd (ensureOdd h0)"
    by (simp_all add: ensureOdd_parity)
  have h: "3 \<le> ensureOdd h0"
  proof (rule ccontr)
    assume "\<not> 3 \<le> ensureOdd h0"
    then have "ensureOdd h0 \<le> 1" using o(2) by presburger
    then have "carvePhase w0 h0 rnd = Some (Inl TypeError) \<or> carvePhase w0 h0 rnd = Some (Inl RangeError)"
      by (auto simp: carvePhase_def Let_def allWalls_def setCellJS_def)
    then show False using assms by (auto simp: generatePerfectMaze_def)
  qed
  have "0 \<le> ensureOdd w0"
  proof (rule ccontr)
    assume "\<not> 0 \<le> ensureOdd w0"
    then have "carvePhase w0 h0 rnd = Some (Inl RangeError)"
      using h by (auto simp: carvePhase_def Let_def allWalls_def)
    then show False using assms by (auto simp: generatePerfectMaze_def)
  qed
  then have "ensureOdd w0 = 1 \<or> 3 \<le> ensureOdd w0" using o(1) by presburger
  then show ?thesis using h by simp
qed

lemma adj4_iff:
  "adj4 p q \<longleftrightarrow> q = (fst p + 1, snd p) \<or> q = (fst p - 1, snd p)
                \<or> q = (fst p, snd p + 1) \<or> q = (fst p, snd p - 1)"
  by (auto simp: adj4_def dirs4_def)

lemma adj4_sym: "adj4 p q \<Longrightarrow> adj4 q p"
  by (auto simp: adj4_iff)

lemma links_mono: "(\<And>p. P p \<Longrightarrow> Q p) \<Longrightarrow> links P \<subseteq> links Q"
  by (auto simp: links_def)

lemma links_sym: "sym (links P)"
  by (auto simp: links_def sym_def adj4_sym)

lemma finite_psg:
  assumes "\<forall>p. psg g p \<longrightarrow> inner w h p"
  shows "finite {p. psg g p}"
  by (rule finite_subset [OF _ finite_inner [of w h]]) (use assms in auto)

lemma set_butlast_last: "xs \<noteq> [] \<Longrightarrow> set xs = insert (last xs) (set (butlast xs))"
  by (induction xs) auto

lemma treeInv_pop:
  assumes sh: "shapeInv w h (g, stack, k)" and tr: "treeInv w h (g, stack, k)"
    and ne: "stack \<noteq> []" and no: "firstOpen w h g (last stack) (shuffled rnd k) = None"
  shows "treeInv w h (g, butlast stack, k')"
proof -
  have fin: "psg g (fst (last stack) + fst d, snd (last stack) + snd d)"
    if "d \<in> set dirs2" "inner w h (fst (last stack) + fst d, snd (last stack) + snd d)" for d
    using firstOpen_None [OF no, of d] that by (simp add: set_shuffled)
  have split: "p \<in> set stack \<Longrightarrow> p \<notin> set (butlast stack) \<Longrightarrow> p = last stack" for p
    using set_butlast_last [OF ne] by auto
  have "\<forall>p. psg g p \<and> oddCell p \<and> p \<notin> set (butlast stack) \<longrightarrow>
          (\<forall>d \<in> set dirs2. inner w h (fst p + fst d, snd p + snd d)
             \<longrightarrow> psg g (fst p + fst d, snd p + snd d))"
  proof (intro allI impI ballI)
    fix p d
    assume p: "psg g p \<and> oddCell p \<and> p \<notin> set (butlast stack)"
      and d: "d \<in> set dirs2" "inner w h (fst p + fst d, snd p + snd d)"
    show "psg g (fst p + fst d, snd p + snd d)"
    proof (cases "p \<in> set stack")
      case True
      then have "p = last stack" using p split by blast
      then show ?thesis using fin d by simp
    next
      case False
      then show ?thesis using tr p d by (auto simp: treeInv_def)
    qed
  qed
  then show ?thesis
    using tr by (simp add: treeInv_def)
qed

lemma treeInv_push:
  assumes sh: "shapeInv w h (g, stack, k)" and tr: "treeInv w h (g, stack, k)"
    and ne: "stack \<noteq> []" and so: "firstOpen w h g (last stack) (shuffled rnd k) = Some d"
  shows "treeInv w h
           (setCell (setCell g (fst (last stack) + fst d div 2) (snd (last stack) + snd d div 2) 0)
              (fst (last stack) + fst d) (snd (last stack) + snd d) 0,
            stack @ [(fst (last stack) + fst d, snd (last stack) + snd d)], k')"
proof -
  obtain cx cy where c: "last stack = (cx, cy)" by (cases "last stack")
  let ?n = "(cx + fst d, cy + snd d)"
  let ?b = "(cx + fst d div 2, cy + snd d div 2)"
  let ?g = "setCell (setCell g (cx + fst d div 2) (cy + snd d div 2) 0) (cx + fst d) (cy + snd d) 0"
  have "(cx, cy) \<in> set stack"
    using last_in_set [OF ne] c by simp
  then have cs: "inner w h (cx, cy)" "oddCell (cx, cy)" "psg g (cx, cy)"
    using sh by (auto simp: shapeInv_def)
  have d: "d \<in> set dirs2" and n: "inner w h ?n" and nn: "\<not> psg g ?n"
    using firstOpen_Some [OF so] c by (auto simp: set_shuffled)
  have dc: "d = (2, 0) \<or> d = (- 2, 0) \<or> d = (0, 2) \<or> d = (0, - 2)"
    by (rule dirs2_cases [OF d])
  have b: "inner w h ?b"
    using between_inner [OF cs(1) d] n by simp
  have r: "rect g w h"
    using sh by (simp add: shapeInv_def)
  have p: "psg ?g q \<longleftrightarrow> q = ?b \<or> q = ?n \<or> psg g q" for q
    using carve_two(2) [OF r b n] by simp
  have ocx: "odd cx" "odd cy" using cs(2) by (auto simp: oddCell_def)
  have on: "oddCell ?n" and ob: "\<not> oddCell ?b"
    using ocx dc by (auto simp: oddCell_def)
  have bn: "?b \<noteq> ?n" using dc by auto
  have e1: "psg g (fst q - 1, snd q) \<and> psg g (fst q + 1, snd q)" if "psg g q" "even (fst q)" for q
    using tr that by (simp add: treeInv_def)
  have e2: "psg g (fst q, snd q - 1) \<and> psg g (fst q, snd q + 1)" if "psg g q" "even (snd q)" for q
    using tr that by (simp add: treeInv_def)
  have nb: "\<not> psg g ?b"
  proof
    assume a: "psg g ?b"
    have "psg g ?n"
      using dc
    proof (elim disjE)
      assume "d = (2, 0)"
      then show ?thesis using e1 [of "(cx + 1, cy)"] a ocx by (simp add: add.assoc)
    next
      assume "d = (- 2, 0)"
      then show ?thesis using e1 [of "(cx - 1, cy)"] a ocx by simp
    next
      assume "d = (0, 2)"
      then show ?thesis using e2 [of "(cx, cy + 1)"] a ocx by (simp add: add.assoc)
    next
      assume "d = (0, - 2)"
      then show ?thesis using e2 [of "(cx, cy - 1)"] a ocx by simp
    qed
    then show False using nn by simp
  qed
  text \<open>connected\<close>
  have mono: "(links (psg g))\<^sup>* \<subseteq> (links (psg ?g))\<^sup>*"
    by (intro rtrancl_mono links_mono) (simp add: p)
  have rc: "((1, 1), (cx, cy)) \<in> (links (psg ?g))\<^sup>*"
    using tr cs(3) mono by (auto simp: treeInv_def)
  have "((cx, cy), ?b) \<in> links (psg ?g)"
    using cs(3) dc by (auto simp: links_def p adj4_iff)
  then have rb: "((1, 1), ?b) \<in> (links (psg ?g))\<^sup>*"
    using rc by (rule rtrancl_into_rtrancl [rotated])
  have "(?b, ?n) \<in> links (psg ?g)"
    using dc by (auto simp: links_def p adj4_iff)
  then have rn: "((1, 1), ?n) \<in> (links (psg ?g))\<^sup>*"
    using rb by (rule rtrancl_into_rtrancl [rotated])
  have t1: "\<forall>q. psg ?g q \<longrightarrow> ((1, 1), q) \<in> (links (psg ?g))\<^sup>*"
    using rb rn tr mono by (auto simp: p treeInv_def)
  text \<open>wall cells between two odd cells\<close>
  have t2: "\<forall>q. psg ?g q \<and> even (fst q) \<longrightarrow> psg ?g (fst q - 1, snd q) \<and> psg ?g (fst q + 1, snd q)"
  proof (intro allI impI)
    fix q assume q: "psg ?g q \<and> even (fst q)"
    then consider "q = ?b" | "q = ?n" | "psg g q" by (auto simp: p)
    then show "psg ?g (fst q - 1, snd q) \<and> psg ?g (fst q + 1, snd q)"
    proof cases
      case 1
      then have "d = (2, 0) \<or> d = (- 2, 0)" using q dc ocx by auto
      then show ?thesis using 1 cs(3) by (auto simp: p)
    next
      case 2
      then show ?thesis using q on by (simp add: oddCell_def)
    next
      case 3
      then show ?thesis using q tr by (simp add: treeInv_def p)
    qed
  qed
  have t3: "\<forall>q. psg ?g q \<and> even (snd q) \<longrightarrow> psg ?g (fst q, snd q - 1) \<and> psg ?g (fst q, snd q + 1)"
  proof (intro allI impI)
    fix q assume q: "psg ?g q \<and> even (snd q)"
    then consider "q = ?b" | "q = ?n" | "psg g q" by (auto simp: p)
    then show "psg ?g (fst q, snd q - 1) \<and> psg ?g (fst q, snd q + 1)"
    proof cases
      case 1
      then have "d = (0, 2) \<or> d = (0, - 2)" using q dc ocx by auto
      then show ?thesis using 1 cs(3) by (auto simp: p)
    next
      case 2
      then show ?thesis using q on by (simp add: oddCell_def)
    next
      case 3
      then show ?thesis using q tr by (simp add: treeInv_def p)
    qed
  qed
  text \<open>odd cells off the stack have no closed target left\<close>
  have t4: "\<forall>q. psg ?g q \<and> oddCell q \<and> q \<notin> set (stack @ [?n]) \<longrightarrow>
              (\<forall>e \<in> set dirs2. inner w h (fst q + fst e, snd q + snd e)
                 \<longrightarrow> psg ?g (fst q + fst e, snd q + snd e))"
  proof (intro allI impI ballI)
    fix q e
    assume q: "psg ?g q \<and> oddCell q \<and> q \<notin> set (stack @ [?n])"
      and e: "e \<in> set dirs2" "inner w h (fst q + fst e, snd q + snd e)"
    have "q \<noteq> ?b" using q ob by auto
    then have "psg g q" "q \<notin> set stack" using q by (auto simp: p)
    then have "psg g (fst q + fst e, snd q + snd e)"
      using tr q e by (auto simp: treeInv_def)
    then show "psg ?g (fst q + fst e, snd q + snd e)" by (simp add: p)
  qed
  text \<open>one wall cell and one odd cell more\<close>
  have fin: "finite {q. psg g q}"
    by (rule finite_psg [of g w h]) (use sh in \<open>auto simp: shapeInv_def\<close>)
  have s1: "{q. psg ?g q} = insert ?b (insert ?n {q. psg g q})"
    by (auto simp: p)
  have s2: "{q. psg ?g q \<and> oddCell q} = insert ?n {q. psg g q \<and> oddCell q}"
    using on ob by (auto simp: p)
  have c1: "card {q. psg ?g q} = card {q. psg g q} + 2"
    unfolding s1 using fin nb nn bn by simp
  have c2: "card {q. psg ?g q \<and> oddCell q} = card {q. psg g q \<and> oddCell q} + 1"
    unfolding s2 using fin nn by simp
  have t5: "card {q. psg ?g q} + 1 = 2 * card {q. psg ?g q \<and> oddCell q}"
    using tr by (simp add: c1 c2 treeInv_def)
  show ?thesis
    unfolding c treeInv_def using t1 t2 t3 t4 t5 by simp
qed

lemma treeInv_step:
  assumes "shapeInv w h (g, stack, k)" "treeInv w h (g, stack, k)" "stack \<noteq> []"
  shows "treeInv w h (carveStep w h rnd (g, stack, k))"
proof (cases "firstOpen w h g (last stack) (shuffled rnd k)")
  case None
  then show ?thesis
    using treeInv_pop [OF assms None] by (simp add: carveStep_def)
next
  case (Some d)
  then show ?thesis
    using treeInv_push [OF assms Some] by (simp add: carveStep_def Let_def)
qed

lemma startGrid_tree:
  assumes "3 \<le> w" "3 \<le> h"
  shows "treeInv w h (startGrid w h, [(1, 1)], 0)"
proof -
  note p = startGrid_shape(2) [OF assms]
  have s: "{q. psg (startGrid w h) q} = {(1, 1)}"
    "{q. psg (startGrid w h) q \<and> oddCell q} = {(1, 1)}"
    by (auto simp: p oddCell_def)
  show ?thesis
    unfolding treeInv_def by (simp add: s) (simp add: p)
qed

lemma carveLoop_tree:
  assumes "carveLoop w h rnd s = Some t" "shapeInv w h s" "treeInv w h s"
  shows "treeInv w h t"
proof -
  have "shapeInv w h t \<and> treeInv w h t"
  proof (rule while_option_rule [where P = "\<lambda>s. shapeInv w h s \<and> treeInv w h s",
        OF _ assms(1) [unfolded carveLoop_def]])
    fix s :: "grid \<times> cell list \<times> nat"
    assume "shapeInv w h s \<and> treeInv w h s" and "case s of (g, stack, k) \<Rightarrow> stack \<noteq> []"
    then show "shapeInv w h (carveStep w h rnd s) \<and> treeInv w h (carveStep w h rnd s)"
      by (cases s) (simp add: shapeInv_step treeInv_step)
  qed (use assms in simp)
  then show ?thesis ..
qed

text \<open>With the stack empty, the passages cover the odd cells inside the border.\<close>

lemma treeInv_closed:
  assumes "treeInv w h (g, [], k)" "psg g p" "oddCell p" "d \<in> set dirs2"
    "inner w h (fst p + fst d, snd p + snd d)"
  shows "psg g (fst p + fst d, snd p + snd d)"
  using assms unfolding treeInv_def by simp

lemma odd_row_carved:
  assumes tr: "treeInv w h (g, [], k)" and ro: "psg g (1, 1)"
  shows "inner w h (2 * int i + 1, 1) \<Longrightarrow> psg g (2 * int i + 1, 1)"
proof (induction i)
  case 0
  then show ?case using ro by simp
next
  case (Suc i)
  then have "inner w h (2 * int i + 1, 1)"
    by (auto simp: inner_def)
  then have a: "psg g (2 * int i + 1, 1)" by (rule Suc.IH)
  have o: "oddCell (2 * int i + 1, 1)" by (simp add: oddCell_def)
  have d: "(2, 0) \<in> set dirs2" by (simp add: dirs2_def)
  show ?case
    using treeInv_closed [OF tr a o d] Suc.prems by (simp add: algebra_simps)
qed

lemma odd_cell_carved:
  assumes tr: "treeInv w h (g, [], k)" and ro: "psg g (1, 1)"
  shows "inner w h (2 * int i + 1, 2 * int j + 1) \<Longrightarrow> psg g (2 * int i + 1, 2 * int j + 1)"
proof (induction j)
  case 0
  then show ?case using odd_row_carved [OF tr ro, of i] by simp
next
  case (Suc j)
  then have "inner w h (2 * int i + 1, 2 * int j + 1)"
    by (auto simp: inner_def)
  then have a: "psg g (2 * int i + 1, 2 * int j + 1)" by (rule Suc.IH)
  have o: "oddCell (2 * int i + 1, 2 * int j + 1)" by (simp add: oddCell_def)
  have d: "(0, 2) \<in> set dirs2" by (simp add: dirs2_def)
  show ?case
    using treeInv_closed [OF tr a o d] Suc.prems by (simp add: algebra_simps)
qed

lemma odd_pos_int: "0 < x \<Longrightarrow> odd x \<Longrightarrow> x = 2 * int (nat ((x - 1) div 2)) + 1"
  for x :: int
proof -
  assume a: "0 < x" "odd x"
  then have "0 \<le> (x - 1) div 2" by simp
  then have "int (nat ((x - 1) div 2)) = (x - 1) div 2" by simp
  moreover have "x = 2 * ((x - 1) div 2) + 1" using a(2) by presburger
  ultimately show ?thesis by simp
qed

lemma all_odd_carved:
  assumes tr: "treeInv w h (g, [], k)" and ro: "psg g (1, 1)"
    and p: "inner w h p" "oddCell p"
  shows "psg g p"
proof -
  have "0 < fst p" "odd (fst p)" "0 < snd p" "odd (snd p)"
    using p by (auto simp: inner_def oddCell_def)
  then have "p = (2 * int (nat ((fst p - 1) div 2)) + 1, 2 * int (nat ((snd p - 1) div 2)) + 1)"
    using odd_pos_int [of "fst p"] odd_pos_int [of "snd p"] by (simp add: prod_eq_iff)
  then show ?thesis
    using odd_cell_carved [OF tr ro, of "nat ((fst p - 1) div 2)" "nat ((snd p - 1) div 2)"] p(1)
    by simp
qed

lemma carvePhase_returns:
  assumes "carvePhase w0 h0 rnd = Some (Inr (g, k))"
  shows "3 \<le> ensureOdd h0 \<and> (ensureOdd w0 = 1 \<or> 3 \<le> ensureOdd w0)"
proof -
  have o: "odd (ensureOdd w0)" "odd (ensureOdd h0)"
    by (simp_all add: ensureOdd_parity)
  have h: "3 \<le> ensureOdd h0"
  proof (rule ccontr)
    assume "\<not> 3 \<le> ensureOdd h0"
    then have "ensureOdd h0 \<le> 1" using o(2) by presburger
    then have "carvePhase w0 h0 rnd = Some (Inl TypeError) \<or> carvePhase w0 h0 rnd = Some (Inl RangeError)"
      by (auto simp: carvePhase_def Let_def allWalls_def setCellJS_def)
    then show False using assms by auto
  qed
  have "0 \<le> ensureOdd w0"
  proof (rule ccontr)
    assume "\<not> 0 \<le> ensureOdd w0"
    then have "carvePhase w0 h0 rnd = Some (Inl RangeError)"
      using h by (auto simp: carvePhase_def Let_def allWalls_def)
    then show False using assms by auto
  qed
  then have "ensureOdd w0 = 1 \<or> 3 \<le> ensureOdd w0" using o(1) by presburger
  then show ?thesis using h by simp
qed

lemma carvePhase_thin:
  assumes "ensureOdd w0 = 1" "3 \<le> ensureOdd h0"
  shows "carvePhase w0 h0 rnd = Some (Inr (thinGrid (ensureOdd h0), 4))"
proof -
  have "setCellJS (replicate (nat (ensureOdd h0)) [1::int]) 1 1 0 = Inr (thinGrid (ensureOdd h0))"
    using assms(2) by (simp add: setCellJS_def thinGrid_def)
  then show ?thesis
    using assms by (simp add: carvePhase_def Let_def allWalls_def carveLoop_thin)
qed

lemma ensureOdd_small: "ensureOdd n = 1 \<Longrightarrow> n < 2" and ensureOdd_big: "3 \<le> ensureOdd n \<Longrightarrow> 2 \<le> n"
  by (auto simp: ensureOdd_def split: if_splits)

lemma connected_from_root:
  assumes "\<forall>p. P p \<longrightarrow> (r, p) \<in> (links P)\<^sup>*" "P p" "P q"
  shows "(p, q) \<in> (links P)\<^sup>*"
proof -
  have "(r, p) \<in> (links P)\<^sup>*" "(r, q) \<in> (links P)\<^sup>*"
    using assms by blast+
  then have "(p, r) \<in> (links P)\<^sup>*"
    using links_sym [of P] by (simp add: sym_rtrancl symD)
  then show ?thesis
    using \<open>(r, q) \<in> (links P)\<^sup>*\<close> by (rule rtrancl_trans)
qed

lemma carvePhase_tree:
  assumes "2 \<le> w0" "2 \<le> h0" "carvePhase w0 h0 rnd = Some (Inr (g, k))"
  shows "shapeInv (ensureOdd w0) (ensureOdd h0) (g, [], k)
         \<and> treeInv (ensureOdd w0) (ensureOdd h0) (g, [], k)"
proof -
  let ?w = "ensureOdd w0" and ?h = "ensureOdd h0"
  have w: "3 \<le> ?w" and h: "3 \<le> ?h"
    using assms ensureOdd_ge by auto
  obtain g' k' where c: "carvePhase w0 h0 rnd = Some (Inr (g', k'))"
    and l: "carveLoop ?w ?h rnd (startGrid ?w ?h, [(1, 1)], 0) = Some (g', [], k')"
    and s: "shapeInv ?w ?h (g', [], k')"
    using carvePhase_shape [OF assms(1,2)] by blast
  have "treeInv ?w ?h (g', [], k')"
    by (rule carveLoop_tree [OF l startGrid_shape(1) [OF w h] startGrid_tree [OF w h]])
  then show ?thesis
    using s c assms(3) by simp
qed

lemma carvePhase_connected:
  assumes c: "carvePhase w0 h0 rnd = Some (Inr (g, k))" and pq: "psg g p" "psg g q"
  shows "(p, q) \<in> (links (psg g))\<^sup>*"
proof -
  from carvePhase_returns [OF c]
  consider "ensureOdd w0 = 1" "3 \<le> ensureOdd h0" | "3 \<le> ensureOdd w0" "3 \<le> ensureOdd h0"
    by blast
  then show ?thesis
  proof cases
    case 1
    then have "g = thinGrid (ensureOdd h0)"
      using c carvePhase_thin [OF 1, of rnd] by simp
    then have "p = q"
      using pq by (auto simp: psg_def thinGrid_cellAt prod_eq_iff split: if_splits)
    then show ?thesis by simp
  next
    case 2
    then have "2 \<le> w0" "2 \<le> h0" by (auto dest: ensureOdd_big)
    from carvePhase_tree [OF this c] have "\<forall>p. psg g p \<longrightarrow> ((1, 1), p) \<in> (links (psg g))\<^sup>*"
      by (simp add: treeInv_def)
    then show ?thesis
      using pq by (intro connected_from_root) auto
  qed
qed

lemma carvePhase_spanning:
  assumes c: "carvePhase w0 h0 rnd = Some (Inr (g, k))" and d: "2 \<le> w0" "2 \<le> h0"
  shows "{p. psg g p \<and> oddCell p} = {p. inner (ensureOdd w0) (ensureOdd h0) p \<and> oddCell p}"
    and "\<forall>p. psg g p \<and> \<not> oddCell p \<longrightarrow>
          even (fst p) \<and> odd (snd p) \<and> psg g (fst p - 1, snd p) \<and> psg g (fst p + 1, snd p)
          \<or> odd (fst p) \<and> even (snd p) \<and> psg g (fst p, snd p - 1) \<and> psg g (fst p, snd p + 1)"
    and "card {p. psg g p \<and> \<not> oddCell p} + 1 = card {p. psg g p \<and> oddCell p}"
proof -
  have sh: "shapeInv (ensureOdd w0) (ensureOdd h0) (g, [], k)"
    and tr: "treeInv (ensureOdd w0) (ensureOdd h0) (g, [], k)"
    using carvePhase_tree [OF d c] by simp_all
  have ro: "psg g (1, 1)"
    using sh by (simp add: shapeInv_def)
  have inn: "inner (ensureOdd w0) (ensureOdd h0) p" if "psg g p" for p
    using sh that by (simp add: shapeInv_def del: split_paired_All)
  have par: "odd (fst p) \<or> odd (snd p)" if "psg g p" for p
    using sh that by (simp add: shapeInv_def del: split_paired_All)
  show "{p. psg g p \<and> oddCell p} = {p. inner (ensureOdd w0) (ensureOdd h0) p \<and> oddCell p}"
  proof (rule set_eqI)
    fix p
    show "p \<in> {p. psg g p \<and> oddCell p}
          \<longleftrightarrow> p \<in> {p. inner (ensureOdd w0) (ensureOdd h0) p \<and> oddCell p}"
      using inn [of p] all_odd_carved [OF tr ro, of p] by blast
  qed
  show "\<forall>p. psg g p \<and> \<not> oddCell p \<longrightarrow>
          even (fst p) \<and> odd (snd p) \<and> psg g (fst p - 1, snd p) \<and> psg g (fst p + 1, snd p)
          \<or> odd (fst p) \<and> even (snd p) \<and> psg g (fst p, snd p - 1) \<and> psg g (fst p, snd p + 1)"
  proof (intro allI impI)
    fix p assume p: "psg g p \<and> \<not> oddCell p"
    have e1: "psg g (fst p - 1, snd p) \<and> psg g (fst p + 1, snd p)" if "even (fst p)"
      using tr p that by (simp add: treeInv_def del: split_paired_All)
    have e2: "psg g (fst p, snd p - 1) \<and> psg g (fst p, snd p + 1)" if "even (snd p)"
      using tr p that by (simp add: treeInv_def del: split_paired_All)
    show "even (fst p) \<and> odd (snd p) \<and> psg g (fst p - 1, snd p) \<and> psg g (fst p + 1, snd p)
          \<or> odd (fst p) \<and> even (snd p) \<and> psg g (fst p, snd p - 1) \<and> psg g (fst p, snd p + 1)"
    proof (cases "even (fst p)")
      case True
      then show ?thesis using e1 par [of p] p by blast
    next
      case False
      then have "even (snd p)" using p by (simp add: oddCell_def)
      then show ?thesis using e2 False by blast
    qed
  qed
  have fin: "finite {p. psg g p}"
    by (rule finite_psg [of g "ensureOdd w0" "ensureOdd h0"]) (use inn in blast)
  have u: "{p. psg g p \<and> \<not> oddCell p} \<union> {p. psg g p \<and> oddCell p} = {p. psg g p}"
    by blast
  have i: "{p. psg g p \<and> \<not> oddCell p} \<inter> {p. psg g p \<and> oddCell p} = {}"
    by blast
  have f: "finite {p. psg g p \<and> \<not> oddCell p}" "finite {p. psg g p \<and> oddCell p}"
    using fin by simp_all
  have "card {p. psg g p} = card {p. psg g p \<and> \<not> oddCell p} + card {p. psg g p \<and> oddCell p}"
    using card_Un_disjoint [OF f i] unfolding u .
  moreover have "card {p. psg g p} + 1 = 2 * card {p. psg g p \<and> oddCell p}"
    using tr by (simp add: treeInv_def)
  ultimately show "card {p. psg g p \<and> \<not> oddCell p} + 1 = card {p. psg g p \<and> oddCell p}"
    by simp
qed

text \<open>
  Claim C1. Whenever the script gets past the carve loop, any two passage cells of the
  grid at that point are joined by a chain of passage cells, each next to the one before
  (left, right, up or down). For requested sizes from 2 on the carve loop does end, and
  the passages are a spanning tree of the odd cells inside the border: every such cell is
  a passage, every other passage is a cell between two odd passage cells (an edge), and
  there is one edge less than there are odd cells.
\<close>

theorem carve_spanning_tree:
  "(2 \<le> w0 \<and> 2 \<le> h0 \<longrightarrow> (\<exists>g k. carvePhase w0 h0 rnd = Some (Inr (g, k))))
   \<and> (\<forall>g k. carvePhase w0 h0 rnd = Some (Inr (g, k)) \<longrightarrow>
         (\<forall>p q. psg g p \<and> psg g q \<longrightarrow> (p, q) \<in> (links (psg g))\<^sup>*)
         \<and> (2 \<le> w0 \<and> 2 \<le> h0 \<longrightarrow>
              {p. psg g p \<and> oddCell p}
                = {p. inner (ensureOdd w0) (ensureOdd h0) p \<and> oddCell p}
              \<and> (\<forall>p. psg g p \<and> \<not> oddCell p \<longrightarrow>
                    even (fst p) \<and> odd (snd p)
                      \<and> psg g (fst p - 1, snd p) \<and> psg g (fst p + 1, snd p)
                    \<or> odd (fst p) \<and> even (snd p)
                      \<and> psg g (fst p, snd p - 1) \<and> psg g (fst p, snd p + 1))
              \<and> card {p. psg g p \<and> \<not> oddCell p} + 1 = card {p. psg g p \<and> oddCell p}))"
proof (intro conjI allI impI)
  assume "2 \<le> w0 \<and> 2 \<le> h0"
  then show "\<exists>g k. carvePhase w0 h0 rnd = Some (Inr (g, k))"
    using carvePhase_shape [of w0 h0 rnd] by blast
next
  fix g k p q
  assume "carvePhase w0 h0 rnd = Some (Inr (g, k))" "psg g p \<and> psg g q"
  then show "(p, q) \<in> (links (psg g))\<^sup>*"
    using carvePhase_connected [of w0 h0 rnd g k p q] by simp
next
  fix g k
  assume "carvePhase w0 h0 rnd = Some (Inr (g, k))" "2 \<le> w0 \<and> 2 \<le> h0"
  then show "{p. psg g p \<and> oddCell p} = {p. inner (ensureOdd w0) (ensureOdd h0) p \<and> oddCell p}"
    using carvePhase_spanning(1) [of w0 h0 rnd g k] by simp
next
  fix g k p
  assume "carvePhase w0 h0 rnd = Some (Inr (g, k))" "2 \<le> w0 \<and> 2 \<le> h0" "psg g p \<and> \<not> oddCell p"
  then show "even (fst p) \<and> odd (snd p) \<and> psg g (fst p - 1, snd p) \<and> psg g (fst p + 1, snd p)
          \<or> odd (fst p) \<and> even (snd p) \<and> psg g (fst p, snd p - 1) \<and> psg g (fst p, snd p + 1)"
    using carvePhase_spanning(2) [of w0 h0 rnd g k, rule_format, of p] by simp
next
  fix g k
  assume "carvePhase w0 h0 rnd = Some (Inr (g, k))" "2 \<le> w0 \<and> 2 \<le> h0"
  then show "card {p. psg g p \<and> \<not> oddCell p} + 1 = card {p. psg g p \<and> oddCell p}"
    using carvePhase_spanning(3) [of w0 h0 rnd g k] by simp
qed

theorem carve_spanning_tree_witness:
  "\<exists>g k. carvePhase 4 4 (\<lambda>k. 0) = Some (Inr (g, k))
     \<and> ((1, 1), (3, 3)) \<in> (links (psg g))\<^sup>*
     \<and> psg g (1, 1) \<and> psg g (3, 3)
     \<and> card {p. psg g p \<and> \<not> oddCell p} + 1 = card {p. psg g p \<and> oddCell p}"
proof -
  note t = carve_spanning_tree [of 4 4 "\<lambda>k. 0"]
  have "\<exists>g k. carvePhase 4 4 (\<lambda>k. 0) = Some (Inr (g, k))"
    using conjunct1 [OF t] by simp
  then obtain g k where c: "carvePhase 4 4 (\<lambda>k. 0) = Some (Inr (g, k))"
    by blast
  have e: "ensureOdd 4 = 5" by (simp add: ensureOdd_def)
  note u = conjunct2 [OF t, rule_format, OF c]
  have l: "(p, q) \<in> (links (psg g))\<^sup>*" if "psg g p" "psg g q" for p q
    using conjunct1 [OF u] that by blast
  have v: "{p. psg g p \<and> oddCell p} = {p. inner 5 5 p \<and> oddCell p}
           \<and> (\<forall>p. psg g p \<and> \<not> oddCell p \<longrightarrow>
                 even (fst p) \<and> odd (snd p) \<and> psg g (fst p - 1, snd p) \<and> psg g (fst p + 1, snd p)
                 \<or> odd (fst p) \<and> even (snd p) \<and> psg g (fst p, snd p - 1) \<and> psg g (fst p, snd p + 1))
           \<and> card {p. psg g p \<and> \<not> oddCell p} + 1 = card {p. psg g p \<and> oddCell p}"
    using conjunct2 [OF u] unfolding e by simp
  have "(1, 1) \<in> {p. inner 5 5 p \<and> oddCell p}" "(3, 3) \<in> {p. inner 5 5 p \<and> oddCell p}"
    by (simp_all add: inner_def oddCell_def)
  then have p: "psg g (1, 1)" "psg g (3, 3)"
    unfolding conjunct1 [OF v, symmetric] by simp_all
  show ?thesis
    using c l [OF p] p conjunct2 [OF conjunct2 [OF v]] by blast
qed

lemma rngOk_zero: "rngOk (\<lambda>k. 0)"
  by (simp add: rngOk_def)

lemma thinGrid_size: "3 \<le> h \<Longrightarrow> cols (thinGrid h) = 1 \<and> rows (thinGrid h) = h"
  by (cases "nat h") (simp_all add: cols_def rows_def thinGrid_def split: list.splits)

lemma generatePerfectMaze_size:
  assumes g: "generatePerfectMaze w h rnd = Some (Inr g)"
  shows "rows g = ensureOdd h \<and> cols g = ensureOdd w"
proof -
  from generatePerfectMaze_returns [OF g]
  consider "ensureOdd w = 1" "3 \<le> ensureOdd h" | "3 \<le> ensureOdd w" "3 \<le> ensureOdd h"
    by blast
  then show ?thesis
  proof cases
    case 1
    then have "g = thinGrid (ensureOdd h)"
      using g generatePerfectMaze_thin [OF 1, of rnd] by simp
    then show ?thesis using thinGrid_size [OF 1(2)] 1(1) by simp
  next
    case 2
    then have d: "2 \<le> w" "2 \<le> h" by (auto dest: ensureOdd_big)
    obtain g' where g': "generatePerfectMaze w h rnd = Some (Inr g')"
      and r: "rect g' (ensureOdd w) (ensureOdd h)"
      using generatePerfectMaze_shape [OF d, of rnd] by blast
    have "g' = g" using g g' by simp
    then show ?thesis using cols_rect [OF r] rows_rect [OF r] 2 by simp
  qed
qed

text \<open>
  Claim C8 as stated fails at the even request 0: it becomes 1, not an odd value from
  3 on. For a width request of 0 and a height request of 3 the script returns three rows
  whose first has one cell (the cell carved first is appended to row 1).
\<close>

theorem zero_width_counterexample:
  "generatePerfectMaze 0 3 (\<lambda>k. 0) = Some (Inr [[1], [1, 0], [1]])
   \<and> cols [[1], [1, 0], [1]] = 1 \<and> rows [[1], [1, 0], [1]] = 3"
proof -
  have "ensureOdd 0 = 1" "ensureOdd 3 = 3" by (simp_all add: ensureOdd_def)
  then have "generatePerfectMaze 0 3 (\<lambda>k. 0) = Some (Inr (thinGrid 3))"
    using generatePerfectMaze_thin [of 0 3 "\<lambda>k. 0"] by simp
  moreover have "thinGrid 3 = [[1], [1, 0], [1]]"
    by (simp add: thinGrid_def numeral_3_eq_3)
  ultimately show ?thesis by (simp add: cols_def rows_def)
qed

text \<open>
  Claim C8 as amended. A request of 40 by 28 returns 29 rows of 41 cells each. Whenever
  the script returns a grid, its number of rows and of columns (\<open>maze.length\<close>,
  \<open>maze[0].length\<close>) is the request, plus one where the request is even; nothing is
  raised to 3. For every request from 2 on a grid is returned, all its rows have that
  number of cells, and both sizes are odd and at least 3.
\<close>

theorem generatePerfectMaze_dimensions:
  assumes "rngOk rnd"
  shows "(\<exists>g. generatePerfectMaze 40 28 rnd = Some (Inr g)
            \<and> rows g = 29 \<and> cols g = 41 \<and> rect g 41 29)
       \<and> (\<forall>g. generatePerfectMaze w h rnd = Some (Inr g) \<longrightarrow>
            rows g = (if even h then h + 1 else h)
            \<and> cols g = (if even w then w + 1 else w))
       \<and> (2 \<le> w \<and> 2 \<le> h \<longrightarrow>
            (\<exists>g. generatePerfectMaze w h rnd = Some (Inr g)
               \<and> rows g = (if even h then h + 1 else h)
               \<and> cols g = (if even w then w + 1 else w)
               \<and> rect g (cols g) (rows g)
               \<and> odd (cols g) \<and> 3 \<le> cols g \<and> odd (rows g) \<and> 3 \<le> rows g))"
proof -
  have gen: "\<exists>g. generatePerfectMaze w h rnd = Some (Inr g)
               \<and> rows g = (if even h then h + 1 else h)
               \<and> cols g = (if even w then w + 1 else w)
               \<and> rect g (cols g) (rows g)
               \<and> odd (cols g) \<and> 3 \<le> cols g \<and> odd (rows g) \<and> 3 \<le> rows g"
    if d: "2 \<le> w" "2 \<le> h" for w h
  proof -
    obtain g where g: "generatePerfectMaze w h rnd = Some (Inr g)"
      and r: "rect g (ensureOdd w) (ensureOdd h)"
      using generatePerfectMaze_shape [OF d, of rnd] by blast
    have b: "3 \<le> ensureOdd w" "odd (ensureOdd w)" "3 \<le> ensureOdd h" "odd (ensureOdd h)"
      using ensureOdd_ge d by simp_all
    then have "cols g = ensureOdd w" "rows g = ensureOdd h"
      using cols_rect [OF r] rows_rect [OF r] by simp_all
    then show ?thesis
      using g r b by (simp add: ensureOdd_parity)
  qed
  have a: "\<exists>g. generatePerfectMaze 40 28 rnd = Some (Inr g)
            \<and> rows g = 29 \<and> cols g = 41 \<and> rect g 41 29"
    using gen [of 40 28] by auto
  have b: "\<forall>g. generatePerfectMaze w h rnd = Some (Inr g) \<longrightarrow>
            rows g = (if even h then h + 1 else h)
            \<and> cols g = (if even w then w + 1 else w)"
    using generatePerfectMaze_size [of w h rnd] by (simp add: ensureOdd_parity)
  have c: "2 \<le> w \<and> 2 \<le> h \<longrightarrow>
            (\<exists>g. generatePerfectMaze w h rnd = Some (Inr g)
               \<and> rows g = (if even h then h + 1 else h)
               \<and> cols g = (if even w then w + 1 else w)
               \<and> rect g (cols g) (rows g)
               \<and> odd (cols g) \<and> 3 \<le> cols g \<and> odd (rows g) \<and> 3 \<le> rows g)"
    using gen [of w h] by (intro impI) (elim conjE)
  show ?thesis
    by (intro conjI a b c)
qed

theorem generatePerfectMaze_dimensions_witness:
  "\<exists>g. generatePerfectMaze 40 28 (\<lambda>k. 0) = Some (Inr g)
      \<and> rows g = 29 \<and> cols g = 41 \<and> length g = 29 \<and> length (g ! 7) = 41"
proof -
  have "\<exists>g. generatePerfectMaze 40 28 (\<lambda>k. 0) = Some (Inr g)
            \<and> rows g = 29 \<and> cols g = 41 \<and> rect g 41 29"
    by (rule conjunct1 [OF generatePerfectMaze_dimensions [OF rngOk_zero, of 0 0]])
  then obtain g where g: "generatePerfectMaze 40 28 (\<lambda>k. 0) = Some (Inr g)"
    "rows g = 29" "cols g = 41" "rect g 41 29"
    by blast
  then have "length g = 29" by (simp add: rect_def)
  moreover from this have "g ! 7 \<in> set g" by simp
  then have "length (g ! 7) = 41" using g(4) by (auto simp: rect_def)
  ultimately show ?thesis using g by blast
qed

text \<open>
  Claim C7. In every grid the script returns, each cell of the first and the last row
  and of the first and the last column is a wall; rows and columns are counted as the
  script counts them (\<open>maze.length\<close>, \<open>maze[0].length\<close>). A grid is returned for every
  request from 2 on.
\<close>

theorem border_cells_are_walls:
  assumes "rngOk rnd"
  shows "(\<forall>g. generatePerfectMaze w h rnd = Some (Inr g) \<longrightarrow>
            (\<forall>x y. 0 \<le> x \<and> x < cols g \<and> 0 \<le> y \<and> y < rows g
                    \<and> (y = 0 \<or> y = rows g - 1 \<or> x = 0 \<or> x = cols g - 1)
                  \<longrightarrow> cellAt g x y = Some 1))
       \<and> (2 \<le> w \<and> 2 \<le> h \<longrightarrow> (\<exists>g. generatePerfectMaze w h rnd = Some (Inr g)))"
proof (intro conjI allI impI)
  assume "2 \<le> w \<and> 2 \<le> h"
  then show "\<exists>g. generatePerfectMaze w h rnd = Some (Inr g)"
    using generatePerfectMaze_shape [of w h rnd] by blast
next
  fix g x y
  assume g: "generatePerfectMaze w h rnd = Some (Inr g)"
    and b: "0 \<le> x \<and> x < cols g \<and> 0 \<le> y \<and> y < rows g
            \<and> (y = 0 \<or> y = rows g - 1 \<or> x = 0 \<or> x = cols g - 1)"
  from generatePerfectMaze_returns [OF g]
  consider "ensureOdd w = 1" "3 \<le> ensureOdd h" | "3 \<le> ensureOdd w" "3 \<le> ensureOdd h"
    by blast
  then show "cellAt g x y = Some 1"
  proof cases
    case 1
    then have e: "g = thinGrid (ensureOdd h)"
      using g generatePerfectMaze_thin [OF 1, of rnd] by simp
    have "cols (thinGrid (ensureOdd h)) = 1" "rows (thinGrid (ensureOdd h)) = ensureOdd h"
      using 1(2) by (simp_all add: cols_def rows_def thinGrid_def split: list.splits)
        (cases "nat (ensureOdd h)"; simp)
    then show ?thesis
      using b unfolding e by (simp add: thinGrid_cellAt)
  next
    case 2
    then have d: "2 \<le> w" "2 \<le> h" by (auto dest: ensureOdd_big)
    obtain g' where g': "generatePerfectMaze w h rnd = Some (Inr g')"
      and r: "rect g' (ensureOdd w) (ensureOdd h)"
      and c: "\<forall>x y. 0 \<le> x \<and> x < ensureOdd w \<and> 0 \<le> y \<and> y < ensureOdd h
                  \<and> (x = 0 \<or> x = ensureOdd w - 1 \<or> y = 0 \<or> y = ensureOdd h - 1)
                \<longrightarrow> cellAt g' x y = Some 1"
      using generatePerfectMaze_shape [OF d, of rnd] by blast
    have e: "g' = g" using g g' by simp
    have cr: "cols g = ensureOdd w" "rows g = ensureOdd h"
      using cols_rect [OF r] rows_rect [OF r] 2 unfolding e by simp_all
    have "0 \<le> x \<and> x < ensureOdd w \<and> 0 \<le> y \<and> y < ensureOdd h
          \<and> (x = 0 \<or> x = ensureOdd w - 1 \<or> y = 0 \<or> y = ensureOdd h - 1)"
      using b unfolding cr by auto
    then have "cellAt g' x y = Some 1"
      by (rule c [rule_format])
    then show ?thesis
      unfolding e .
  qed
qed

theorem border_cells_are_walls_witness:
  "\<exists>g. generatePerfectMaze 4 4 (\<lambda>k. 0) = Some (Inr g)
      \<and> cellAt g 0 0 = Some 1 \<and> cellAt g 4 2 = Some 1 \<and> cellAt g 3 4 = Some 1
      \<and> cellAt g 0 1 = Some 1 \<and> cellAt g 1 0 = Some 1"
proof -
  note t = border_cells_are_walls [OF rngOk_zero, of 4 4]
  have "\<exists>g. generatePerfectMaze 4 4 (\<lambda>k. 0) = Some (Inr g)"
    using conjunct2 [OF t] by simp
  then obtain g where g: "generatePerfectMaze 4 4 (\<lambda>k. 0) = Some (Inr g)"
    by blast
  obtain g' where g': "generatePerfectMaze 4 4 (\<lambda>k. 0) = Some (Inr g')"
    and r: "rect g' (ensureOdd 4) (ensureOdd 4)"
    using generatePerfectMaze_shape [of 4 4 "\<lambda>k. 0"] by auto
  have "ensureOdd 4 = 5" by (simp add: ensureOdd_def)
  then have d: "rows g = 5" "cols g = 5"
    using g g' cols_rect [OF r] rows_rect [OF r] by simp_all
  note u = conjunct1 [OF t, rule_format, OF g, unfolded d]
  show ?thesis
    using g u [of 0 0] u [of 4 2] u [of 3 4] u [of 0 1] u [of 1 0] by simp
qed

text \<open>
  Claim C10. For every request from 2 on, cell (1, 1) is a passage of the returned grid
  and is walkable there: it is a passage when the carve loop ends, it is a passage after
  any number of rounds of the soft walling loop, and the border loops leave it alone.
\<close>

theorem first_cell_stays_open:
  assumes "rngOk rnd" and "2 \<le> w" and "2 \<le> h"
  shows "\<exists>g1 k g. carvePhase w h rnd = Some (Inr (g1, k))
           \<and> cellAt g1 1 1 = Some 0
           \<and> (\<forall>n. cellAt (fst (((softWallStep (ensureOdd w) (ensureOdd h) rnd) ^^ n) (g1, k))) 1 1
                    = Some 0)
           \<and> generatePerfectMaze w h rnd = Some (Inr g)
           \<and> cellAt g 1 1 = Some 0 \<and> isWalkable g 1 1"
proof -
  let ?w = "ensureOdd w" and ?h = "ensureOdd h"
  obtain g1 k where c: "carvePhase w h rnd = Some (Inr (g1, k))"
    and s: "shapeInv ?w ?h (g1, [], k)"
    using carvePhase_shape [OF assms(2,3), of rnd] by blast
  have o: "openInv ?w ?h g1"
    using s by (simp add: shapeInv_def openInv_def)
  have a: "cellAt (fst (((softWallStep ?w ?h rnd) ^^ n) (g1, k))) 1 1 = Some 0" for n
    using softWalls_inv [OF o, where rnd = rnd and n = n and k = k] by (simp add: openInv_def psg_def)
  obtain g where g: "generatePerfectMaze w h rnd = Some (Inr g)"
    and r: "rect g ?w ?h" and p: "psg g (1, 1)"
    using generatePerfectMaze_shape [OF assms(2,3), of rnd] by blast
  have b: "3 \<le> ?w" "3 \<le> ?h"
    using ensureOdd_ge assms(2,3) by simp_all
  then have "cols g = ?w" "rows g = ?h"
    using cols_rect [OF r] rows_rect [OF r] by simp_all
  then have "isWalkable g 1 1"
    using p b by (simp add: isWalkable_def psg_def)
  then show ?thesis
    using c a [of 0] a g p by (auto simp: psg_def)
qed

theorem first_cell_stays_open_witness:
  "\<exists>g. generatePerfectMaze 2 2 (\<lambda>k. 0) = Some (Inr g) \<and> cellAt g 1 1 = Some 0
      \<and> isWalkable g 1 1"
  using first_cell_stays_open [OF rngOk_zero, of 2 2] by auto

section \<open>Properties of the distance map\<close>

lemma walk_inb: "walk m p \<Longrightarrow> inb m p"
  by (auto simp: walk_def inb_def isWalkable_def split: if_splits)

lemma hops_inb: "(u, v) \<in> hops m \<Longrightarrow> inb m v"
  by (simp add: hops_def walk_inb)

lemma relpow_hops_inb: "(s, u) \<in> hops m ^^ n \<Longrightarrow> inb m s \<Longrightarrow> inb m u"
  by (cases n) (auto intro: hops_inb)

lemma distAt_cellAt:
  "rect dm (cols m) (rows m) \<Longrightarrow> inb m p \<Longrightarrow> cellAt dm (fst p) (snd p) = Some (distAt dm p)"
  by (simp add: cellAt_rect inb_def distAt_def)

lemma distAt_setCell:
  assumes "rect dm (cols m) (rows m)" "inb m v" "inb m u"
  shows "distAt (setCell dm (fst v) (snd v) k) u = (if u = v then k else distAt dm u)"
proof -
  have v: "0 \<le> fst v" "fst v < cols m" "0 \<le> snd v" "snd v < rows m"
    using assms(2) by (simp_all add: inb_def)
  have "Some (distAt (setCell dm (fst v) (snd v) k) u)
        = cellAt (setCell dm (fst v) (snd v) k) (fst u) (snd u)"
    by (rule distAt_cellAt [OF rect_setCell [OF assms(1)] assms(3), symmetric])
  also have "\<dots> = (if fst u = fst v \<and> snd u = snd v then Some k else cellAt dm (fst u) (snd u))"
    by (rule cellAt_setCell [OF assms(1) v])
  also have "\<dots> = Some (if u = v then k else distAt dm u)"
    by (simp add: distAt_cellAt [OF assms(1,3)] prod_eq_iff)
  finally show ?thesis by simp
qed

text \<open>The two outcomes of one direction.\<close>

lemma relax_cases:
  assumes "rect dm (cols m) (rows m)"
  shows "relax m c d (dm, q) =
         (let v = (fst c + fst d, snd c + snd d) in
          if walk m v \<and> distAt dm v = - 1
          then (setCell dm (fst v) (snd v) (distAt dm c + 1), q @ [v])
          else (dm, q))"
proof -
  let ?v = "(fst c + fst d, snd c + snd d)"
  show ?thesis
  proof (cases "walk m ?v")
    case True
    then have "cellAt dm (fst ?v) (snd ?v) = Some (distAt dm ?v)"
      by (intro distAt_cellAt [OF assms] walk_inb)
    then show ?thesis
      using True by (auto simp: relax_def Let_def walk_def)
  next
    case False
    then show ?thesis
      by (simp add: relax_def Let_def walk_def)
  qed
qed

lemma bfsInvD:
  assumes "bfsInv m s (dm, F)"
  shows "rect dm (cols m) (rows m)" and "inb m s" and "distAt dm s = 0"
    and "\<And>v. v \<in> set F \<Longrightarrow> inb m v \<and> distAt dm v \<noteq> - 1"
    and "\<And>v. inb m v \<Longrightarrow> distAt dm v \<noteq> - 1 \<Longrightarrow>
           0 \<le> distAt dm v \<and> (s, v) \<in> hops m ^^ nat (distAt dm v)
           \<and> (\<forall>n. (s, v) \<in> hops m ^^ n \<longrightarrow> nat (distAt dm v) \<le> n)"
    and "sorted (map (distAt dm) F)"
    and "\<And>v. v \<in> set F \<Longrightarrow> distAt dm v \<le> distAt dm (hd F) + 1"
    and "\<And>u v. inb m u \<Longrightarrow> distAt dm u \<noteq> - 1 \<Longrightarrow> u \<notin> set F \<Longrightarrow> (u, v) \<in> hops m
           \<Longrightarrow> distAt dm v \<noteq> - 1"
    and "\<And>u n. F \<noteq> [] \<Longrightarrow> (s, u) \<in> hops m ^^ n \<Longrightarrow> int n < distAt dm (hd F)
           \<Longrightarrow> distAt dm u \<noteq> - 1 \<and> u \<notin> set F"
  using assms unfolding bfsInv_def prod.case by blast+

lemma bfsInvI:
  assumes "rect dm (cols m) (rows m)" and "inb m s" and "distAt dm s = 0"
    and "\<And>v. v \<in> set F \<Longrightarrow> inb m v \<and> distAt dm v \<noteq> - 1"
    and "\<And>v. inb m v \<Longrightarrow> distAt dm v \<noteq> - 1 \<Longrightarrow>
           0 \<le> distAt dm v \<and> (s, v) \<in> hops m ^^ nat (distAt dm v)
           \<and> (\<forall>n. (s, v) \<in> hops m ^^ n \<longrightarrow> nat (distAt dm v) \<le> n)"
    and "sorted (map (distAt dm) F)"
    and "\<And>v. v \<in> set F \<Longrightarrow> distAt dm v \<le> distAt dm (hd F) + 1"
    and "\<And>u v. inb m u \<Longrightarrow> distAt dm u \<noteq> - 1 \<Longrightarrow> u \<notin> set F \<Longrightarrow> (u, v) \<in> hops m
           \<Longrightarrow> distAt dm v \<noteq> - 1"
    and "\<And>u n. F \<noteq> [] \<Longrightarrow> (s, u) \<in> hops m ^^ n \<Longrightarrow> int n < distAt dm (hd F)
           \<Longrightarrow> distAt dm u \<noteq> - 1 \<and> u \<notin> set F"
  shows "bfsInv m s (dm, F)"
  unfolding bfsInv_def prod.case using assms by blast

lemma relax_push:
  assumes inv: "bfsInv m s (dm, c # q)" and w: "walk m v" and adj: "adj4 c v"
    and un: "distAt dm v = - 1"
  shows "bfsInv m s (setCell dm (fst v) (snd v) (distAt dm c + 1), c # q @ [v])"
proof -
  let ?k = "distAt dm c"
  let ?dm = "setCell dm (fst v) (snd v) (?k + 1)"
  note D = bfsInvD [OF inv]
  have iv: "inb m v" by (rule walk_inb [OF w])
  have ic: "inb m c" "?k \<noteq> - 1" using D(4) [of c] by simp_all
  have kc: "0 \<le> ?k" "(s, c) \<in> hops m ^^ nat ?k"
    using D(5) [OF ic] by simp_all
  have cv: "(c, v) \<in> hops m" using w adj by (simp add: hops_def)
  have da: "distAt ?dm u = (if u = v then ?k + 1 else distAt dm u)" if "inb m u" for u
    by (rule distAt_setCell [OF D(1) iv that])
  have old: "distAt ?dm u = distAt dm u" if "inb m u" "distAt dm u \<noteq> - 1" for u
    using da [OF that(1)] that(2) un by auto
  have oldF: "distAt ?dm u = distAt dm u" if "u \<in> set (c # q)" for u
    using old D(4) [OF that] by simp
  have g1: "rect ?dm (cols m) (rows m)" by (rule rect_setCell [OF D(1)])
  have g3: "distAt ?dm s = 0" using old [OF D(2)] D(3) by simp
  have g4: "inb m x \<and> distAt ?dm x \<noteq> - 1" if "x \<in> set (c # q @ [v])" for x
  proof (cases "x = v")
    case True
    then show ?thesis using iv da [OF iv] kc(1) by simp
  next
    case False
    then have "x \<in> set (c # q)" using that by auto
    then show ?thesis using D(4) [of x] oldF [of x] by simp
  qed
  have g5: "0 \<le> distAt ?dm x \<and> (s, x) \<in> hops m ^^ nat (distAt ?dm x)
            \<and> (\<forall>n. (s, x) \<in> hops m ^^ n \<longrightarrow> nat (distAt ?dm x) \<le> n)"
    if x: "inb m x" "distAt ?dm x \<noteq> - 1" for x
  proof (cases "x = v")
    case False
    then have "distAt ?dm x = distAt dm x" using da [OF x(1)] by simp
    then show ?thesis using D(5) [of x] x by simp
  next
    case True
    have e: "distAt ?dm v = ?k + 1" using da [OF iv] by simp
    have n: "nat (?k + 1) = Suc (nat ?k)" using kc(1) by simp
    have p: "(s, v) \<in> hops m ^^ Suc (nat ?k)"
      using kc(2) cv by (rule relpow_Suc_I)
    have least: "Suc (nat ?k) \<le> n" if r: "(s, v) \<in> hops m ^^ n" for n
    proof (rule ccontr)
      assume "\<not> Suc (nat ?k) \<le> n"
      then have le: "n \<le> nat ?k" by simp
      show False
      proof (cases n)
        case 0
        then have "v = s" using r by simp
        then show False using un D(3) by simp
      next
        case (Suc n')
        then obtain u where u: "(s, u) \<in> hops m ^^ n'" "(u, v) \<in> hops m"
          using r by auto
        have "int n' < distAt dm (hd (c # q))" using le Suc kc(1) by simp
        then have "distAt dm u \<noteq> - 1 \<and> u \<notin> set (c # q)"
          using D(9) [OF _ u(1)] by simp
        moreover have "inb m u" by (rule relpow_hops_inb [OF u(1) D(2)])
        ultimately have "distAt dm v \<noteq> - 1"
          using D(8) [OF _ _ _ u(2)] by simp
        then show False using un by simp
      qed
    qed
    show ?thesis
      unfolding True e n using kc(1) p least by simp
  qed
  have m: "map (distAt ?dm) (c # q) = map (distAt dm) (c # q)"
    by (rule map_cong [OF refl oldF])
  have top: "distAt dm x \<le> ?k + 1" if "x \<in> set (c # q)" for x
    using D(7) [OF that] by simp
  have dv: "distAt ?dm v = ?k + 1" using da [OF iv] by simp
  have g6: "sorted (map (distAt ?dm) (c # q @ [v]))"
  proof -
    have "map (distAt ?dm) (c # q @ [v]) = map (distAt ?dm) (c # q) @ [distAt ?dm v]"
      by simp
    also have "\<dots> = map (distAt dm) (c # q) @ [?k + 1]"
      unfolding m dv ..
    finally have e: "map (distAt ?dm) (c # q @ [v]) = map (distAt dm) (c # q) @ [?k + 1]" .
    have "sorted (map (distAt dm) (c # q) @ [?k + 1])"
      unfolding sorted_append using D(6) top by auto
    then show ?thesis unfolding e .
  qed
  have g7: "distAt ?dm x \<le> distAt ?dm (hd (c # q @ [v])) + 1" if "x \<in> set (c # q @ [v])" for x
  proof (cases "x = v")
    case True
    then show ?thesis using da [OF iv] oldF [of c] by simp
  next
    case False
    then have "x \<in> set (c # q)" using that by auto
    then show ?thesis using top [of x] oldF [of x] oldF [of c] by simp
  qed
  have g8: "distAt ?dm x \<noteq> - 1"
    if a: "inb m u" "distAt ?dm u \<noteq> - 1" "u \<notin> set (c # q @ [v])" "(u, x) \<in> hops m" for u x
  proof -
    have "u \<noteq> v" using a(3) by auto
    then have "distAt dm u \<noteq> - 1" using da [OF a(1)] a(2) by simp
    moreover have "u \<notin> set (c # q)" using a(3) by auto
    ultimately have "distAt dm x \<noteq> - 1" using D(8) [OF a(1) _ _ a(4)] by simp
    moreover have "inb m x" by (rule hops_inb [OF a(4)])
    ultimately show ?thesis using da [of x] kc(1) by auto
  qed
  have g9: "distAt ?dm u \<noteq> - 1 \<and> u \<notin> set (c # q @ [v])"
    if a: "(s, u) \<in> hops m ^^ n" "int n < distAt ?dm (hd (c # q @ [v]))" for u n
  proof -
    have "int n < distAt dm (hd (c # q))" using a(2) oldF [of c] by simp
    then have b: "distAt dm u \<noteq> - 1 \<and> u \<notin> set (c # q)"
      using D(9) [OF _ a(1)] by simp
    moreover have "inb m u" by (rule relpow_hops_inb [OF a(1) D(2)])
    ultimately have "distAt ?dm u = distAt dm u" using old by simp
    moreover have "u \<noteq> v" using b un by auto
    ultimately show ?thesis using b by auto
  qed
  show ?thesis
    by (rule bfsInvI [OF g1 D(2) g3 g4 g5 g6 g7 g8 g9])
qed

lemma finite_inb: "finite {v. inb m v}"
proof -
  have "{v. inb m v} \<subseteq> {0 .. cols m} \<times> {0 .. rows m}"
    by (auto simp: inb_def)
  then show ?thesis by (rule finite_subset) simp
qed

lemma finite_unseen: "finite (unseen m dm)"
  unfolding unseen_def by (rule finite_subset [OF _ finite_inb [of m]]) blast

lemma relax_inv:
  assumes inv: "bfsInv m s (dm, c # q)" and d: "d \<in> set dirs4"
  shows "bfsInv m s (fst (relax m c d (dm, q)), c # snd (relax m c d (dm, q)))"
    and "\<And>u. inb m u \<Longrightarrow> distAt dm u \<noteq> - 1 \<Longrightarrow>
           distAt (fst (relax m c d (dm, q))) u = distAt dm u"
    and "walk m (fst c + fst d, snd c + snd d) \<Longrightarrow>
           distAt (fst (relax m c d (dm, q))) (fst c + fst d, snd c + snd d) \<noteq> - 1"
    and "bfsMeasure m (relax m c d (dm, q)) \<le> bfsMeasure m (dm, q)"
proof -
  let ?v = "(fst c + fst d, snd c + snd d)"
  let ?dm = "setCell dm (fst ?v) (snd ?v) (distAt dm c + 1)"
  note D = bfsInvD [OF inv]
  note rc = relax_cases [OF D(1), of c d q]
  have adj: "adj4 c ?v" using d by (auto simp: adj4_def)
  have kc: "0 \<le> distAt dm c"
    using D(4) [of c] D(5) [of c] by simp
  show "bfsInv m s (fst (relax m c d (dm, q)), c # snd (relax m c d (dm, q)))"
    using relax_push [OF inv _ adj] inv by (simp add: rc Let_def)
  have da: "distAt ?dm u = (if u = ?v then distAt dm c + 1 else distAt dm u)"
    if "walk m ?v" "inb m u" for u
    by (rule distAt_setCell [OF D(1) walk_inb [OF that(1)] that(2)])
  show "distAt (fst (relax m c d (dm, q))) u = distAt dm u"
    if "inb m u" "distAt dm u \<noteq> - 1" for u
    using that da [of u] by (auto simp: rc Let_def)
  show "distAt (fst (relax m c d (dm, q))) ?v \<noteq> - 1" if "walk m ?v"
    using that da [OF that walk_inb [OF that]] kc by (auto simp: rc Let_def)
  show "bfsMeasure m (relax m c d (dm, q)) \<le> bfsMeasure m (dm, q)"
  proof (cases "walk m ?v \<and> distAt dm ?v = - 1")
    case False
    then show ?thesis by (auto simp: rc Let_def)
  next
    case True
    then have w: "walk m ?v" and iv: "inb m ?v" by (simp_all add: walk_inb)
    have "x \<in> unseen m dm - {?v}" if x: "x \<in> unseen m ?dm" for x
    proof -
      have ix: "inb m x" and dx: "distAt ?dm x = - 1"
        using x by (simp_all add: unseen_def)
      have "x \<noteq> ?v"
      proof
        assume "x = ?v"
        then have "distAt ?dm x = distAt dm c + 1" using da [OF w ix] by simp
        then show False using dx kc by simp
      qed
      moreover from this have "distAt dm x = - 1" using da [OF w ix] dx by simp
      ultimately show ?thesis using ix by (simp add: unseen_def)
    qed
    then have "unseen m ?dm \<subseteq> unseen m dm - {?v}" by blast
    moreover have "?v \<in> unseen m dm" using True iv by (simp add: unseen_def)
    ultimately have "card (unseen m ?dm) < card (unseen m dm)"
      using card_mono [of "unseen m dm - {?v}" "unseen m ?dm"]
        card_Diff1_less [of "unseen m dm" ?v] finite_unseen [of m dm]
      by simp
    then show ?thesis
      using True by (simp add: rc Let_def bfsMeasure_def)
  qed
qed

lemma fold_relax:
  assumes "bfsInv m s (dm, c # q)" "set ds \<subseteq> set dirs4"
  shows "bfsInv m s (fst (fold (relax m c) ds (dm, q)), c # snd (fold (relax m c) ds (dm, q)))
       \<and> (\<forall>u. inb m u \<and> distAt dm u \<noteq> - 1 \<longrightarrow>
             distAt (fst (fold (relax m c) ds (dm, q))) u = distAt dm u)
       \<and> (\<forall>d \<in> set ds. walk m (fst c + fst d, snd c + snd d) \<longrightarrow>
             distAt (fst (fold (relax m c) ds (dm, q))) (fst c + fst d, snd c + snd d) \<noteq> - 1)
       \<and> bfsMeasure m (fold (relax m c) ds (dm, q)) \<le> bfsMeasure m (dm, q)"
  using assms
proof (induction ds arbitrary: dm q)
  case Nil
  then show ?case by simp
next
  case (Cons d ds)
  let ?r = "relax m c d (dm, q)"
  have d: "d \<in> set dirs4" and ds: "set ds \<subseteq> set dirs4"
    using Cons.prems(2) by simp_all
  note R = relax_inv [OF Cons.prems(1) d]
  have i: "bfsInv m s (fst ?r, c # snd ?r)" by (rule R(1))
  let ?f = "fold (relax m c) ds (fst ?r, snd ?r)"
  note IH0 = Cons.IH [OF i ds]
  have IH1: "bfsInv m s (fst ?f, c # snd ?f)"
    using IH0 by blast
  have IH2: "distAt (fst ?f) u = distAt (fst ?r) u" if "inb m u" "distAt (fst ?r) u \<noteq> - 1" for u
    using IH0 that by blast
  have IH3: "distAt (fst ?f) (fst c + fst d', snd c + snd d') \<noteq> - 1"
    if "d' \<in> set ds" "walk m (fst c + fst d', snd c + snd d')" for d'
    using IH0 that by blast
  have IH4: "bfsMeasure m ?f \<le> bfsMeasure m ?r"
    using IH0 by simp
  have e: "fold (relax m c) (d # ds) (dm, q) = ?f" by simp
  have keep: "distAt (fst ?f) u = distAt dm u" if "inb m u" "distAt dm u \<noteq> - 1" for u
  proof -
    have "distAt (fst ?r) u = distAt dm u" by (rule R(2) [OF that])
    moreover from this have "distAt (fst ?f) u = distAt (fst ?r) u"
      using IH2 that by simp
    ultimately show ?thesis by simp
  qed
  have closed: "distAt (fst ?f) (fst c + fst d', snd c + snd d') \<noteq> - 1"
    if "d' \<in> set (d # ds)" "walk m (fst c + fst d', snd c + snd d')" for d'
  proof (cases "d' \<in> set ds")
    case True
    then show ?thesis using IH3 that(2) by blast
  next
    case False
    then have "d' = d" using that(1) by simp
    then have "distAt (fst ?r) (fst c + fst d', snd c + snd d') \<noteq> - 1"
      using R(3) that(2) by simp
    moreover have "inb m (fst c + fst d', snd c + snd d')"
      by (rule walk_inb [OF that(2)])
    ultimately show ?thesis using IH2 by simp
  qed
  have meas: "bfsMeasure m ?f \<le> bfsMeasure m (dm, q)"
    using IH4 R(4) by simp
  show ?case
    unfolding e using IH1 keep closed meas by blast
qed

lemma sorted_hd_le: "sorted xs \<Longrightarrow> x \<in> set xs \<Longrightarrow> hd xs \<le> x"
  by (cases xs) auto

lemma drop_head:
  assumes inv: "bfsInv m s (dm, c # q)"
    and closed: "\<And>d. d \<in> set dirs4 \<Longrightarrow> walk m (fst c + fst d, snd c + snd d)
                   \<Longrightarrow> distAt dm (fst c + fst d, snd c + snd d) \<noteq> - 1"
  shows "bfsInv m s (dm, q)"
proof -
  let ?k = "distAt dm c"
  note D = bfsInvD [OF inv]
  have srt: "sorted (map (distAt dm) q)" and low: "\<And>x. x \<in> set q \<Longrightarrow> ?k \<le> distAt dm x"
    using D(6) by simp_all
  have hdq: "distAt dm (hd q) \<le> distAt dm x" if "x \<in> set q" for x
  proof -
    have "hd (map (distAt dm) q) \<le> distAt dm x"
      using that by (intro sorted_hd_le [OF srt]) simp
    moreover have "q \<noteq> []" using that by auto
    ultimately show ?thesis by (simp add: hd_map)
  qed
  have g4: "inb m v \<and> distAt dm v \<noteq> - 1" if "v \<in> set q" for v
    using D(4) [of v] that by simp
  have g7: "distAt dm v \<le> distAt dm (hd q) + 1" if "v \<in> set q" for v
  proof -
    have "q \<noteq> []" using that by auto
    then have "hd q \<in> set q" by simp
    then have "?k \<le> distAt dm (hd q)" by (rule low)
    moreover have "distAt dm v \<le> ?k + 1" using D(7) [of v] that by simp
    ultimately show ?thesis by simp
  qed
  have g8: "distAt dm x \<noteq> - 1"
    if a: "inb m u" "distAt dm u \<noteq> - 1" "u \<notin> set q" "(u, x) \<in> hops m" for u x
  proof (cases "u = c")
    case True
    have "walk m x" "adj4 c x" using a(4) True by (simp_all add: hops_def)
    then obtain d where "d \<in> set dirs4" "x = (fst c + fst d, snd c + snd d)"
      by (auto simp: adj4_def)
    then show ?thesis using closed [of d] \<open>walk m x\<close> by simp
  next
    case False
    then have "u \<notin> set (c # q)" using a(3) by simp
    then show ?thesis by (rule D(8) [OF a(1,2) _ a(4)])
  qed
  have g9: "distAt dm u \<noteq> - 1 \<and> u \<notin> set q"
    if a: "q \<noteq> []" "(s, u) \<in> hops m ^^ n" "int n < distAt dm (hd q)" for u n
  proof (cases "int n < ?k")
    case True
    then have "distAt dm u \<noteq> - 1 \<and> u \<notin> set (c # q)"
      using D(9) [OF _ a(2)] by simp
    then show ?thesis by simp
  next
    case False
    have "hd q \<in> set q" using a(1) by simp
    then have "distAt dm (hd q) \<le> ?k + 1" using D(7) [of "hd q"] by simp
    then have nk: "int n = ?k" using False a(3) by simp
    have iu: "inb m u" by (rule relpow_hops_inb [OF a(2) D(2)])
    have vu: "distAt dm u \<noteq> - 1"
    proof (cases n)
      case 0
      then have "u = s" using a(2) by simp
      then show ?thesis using D(3) by simp
    next
      case (Suc n')
      then obtain p where p: "(s, p) \<in> hops m ^^ n'" "(p, u) \<in> hops m"
        using a(2) by auto
      have "int n' < distAt dm (hd (c # q))" using Suc nk by simp
      then have "distAt dm p \<noteq> - 1 \<and> p \<notin> set (c # q)"
        using D(9) [OF _ p(1)] by simp
      moreover have "inb m p" by (rule relpow_hops_inb [OF p(1) D(2)])
      ultimately show ?thesis using D(8) [OF _ _ _ p(2)] by simp
    qed
    have "nat (distAt dm u) \<le> n" using D(5) [OF iu vu] a(2) by simp
    then have "distAt dm u < distAt dm (hd q)" using a(3) by simp
    then have "u \<notin> set q" using hdq [of u] by auto
    then show ?thesis using vu by simp
  qed
  show ?thesis
    by (rule bfsInvI [OF D(1) D(2) D(3) g4 D(5) srt g7 g8 g9])
qed

lemma bfsStep_inv:
  assumes inv: "bfsInv m s (dm, q)" and ne: "q \<noteq> []"
  shows "bfsInv m s (bfsStep m (dm, q))"
    and "bfsMeasure m (bfsStep m (dm, q)) < bfsMeasure m (dm, q)"
proof -
  obtain c q' where q: "q = c # q'" using ne by (cases q) auto
  let ?f = "fold (relax m c) dirs4 (dm, q')"
  have e: "bfsStep m (dm, q) = ?f" by (simp add: bfsStep_def q)
  have i: "bfsInv m s (dm, c # q')" using inv q by simp
  note F = fold_relax [OF i subset_refl]
  have F1: "bfsInv m s (fst ?f, c # snd ?f)" using F by blast
  have F3: "distAt (fst ?f) (fst c + fst d, snd c + snd d) \<noteq> - 1"
    if "d \<in> set dirs4" "walk m (fst c + fst d, snd c + snd d)" for d
    using F that by blast
  have F4: "bfsMeasure m ?f \<le> bfsMeasure m (dm, q')" using F by simp
  have "bfsInv m s (fst ?f, snd ?f)"
    by (rule drop_head [OF F1 F3])
  then show "bfsInv m s (bfsStep m (dm, q))" unfolding e by simp
  show "bfsMeasure m (bfsStep m (dm, q)) < bfsMeasure m (dm, q)"
    unfolding e using F4 by (simp add: bfsMeasure_def q)
qed

lemma bfsLoop_ends:
  assumes "bfsInv m s st"
  shows "\<exists>dm. bfsLoop m st = Some (dm, []) \<and> bfsInv m s (dm, [])"
proof -
  have "\<exists>t. while_option (\<lambda>(dm, q). q \<noteq> []) (bfsStep m) st = Some t"
  proof (rule measure_while_option_Some [where P = "bfsInv m s" and f = "bfsMeasure m"])
    fix st :: "int list list \<times> cell list"
    assume "bfsInv m s st" and "case st of (dm, q) \<Rightarrow> q \<noteq> []"
    then show "bfsInv m s (bfsStep m st) \<and> bfsMeasure m (bfsStep m st) < bfsMeasure m st"
      by (cases st) (simp add: bfsStep_inv)
  qed (rule assms)
  then obtain t where t: "bfsLoop m st = Some t"
    by (auto simp: bfsLoop_def)
  have "bfsInv m s t"
  proof (rule while_option_rule [where P = "bfsInv m s", OF _ t [unfolded bfsLoop_def] assms])
    fix st :: "int list list \<times> cell list"
    assume "bfsInv m s st" and "case st of (dm, q) \<Rightarrow> q \<noteq> []"
    then show "bfsInv m s (bfsStep m st)"
      by (cases st) (simp add: bfsStep_inv)
  qed
  moreover have "\<not> (case t of (dm, q) \<Rightarrow> q \<noteq> [])"
    by (rule while_option_stop [OF t [unfolded bfsLoop_def]])
  ultimately show ?thesis
    using t by (cases t) auto
qed

lemma rows_cols_nonneg: "0 \<le> rows m" "0 \<le> cols m"
  by (simp_all add: rows_def cols_def split: list.splits)

lemma rect_blank: "rect (replicate (nat (rows m)) (replicate (nat (cols m)) v)) (cols m) (rows m)"
  by (intro rect_replicate rows_cols_nonneg)

lemma distAt_dist0:
  assumes "inb m s" "inb m u"
  shows "distAt (dist0 m s) u = (if u = s then 0 else - 1)"
proof -
  have "distAt (replicate (nat (rows m)) (replicate (nat (cols m)) (- 1))) u = - 1"
    using assms(2) by (simp add: distAt_def inb_def)
  then show ?thesis
    unfolding dist0_def using distAt_setCell [OF rect_blank assms] by simp
qed

lemma bfsDistances_unfold:
  assumes "inb m s"
  shows "bfsDistances m s
         = (case bfsLoop m (dist0 m s, [s]) of None \<Rightarrow> None | Some (dm, q) \<Rightarrow> Some (Inr dm))"
proof -
  have "snd s < int (length (replicate (nat (rows m)) (replicate (nat (cols m)) (- 1 :: int))))"
    using assms by (simp add: inb_def rows_def)
  moreover have "nat (snd s) < nat (rows m)"
    using assms by (simp add: inb_def)
  then have "fst s < int (length (replicate (nat (rows m)) (replicate (nat (cols m)) (- 1 :: int))
                       ! nat (snd s)))"
    using assms by (simp add: inb_def)
  ultimately show ?thesis
    using assms by (simp add: bfsDistances_def setCellJS_def dist0_def inb_def)
qed

lemma bfsInv_start:
  assumes s: "inb m s"
  shows "bfsInv m s (dist0 m s, [s])"
proof (rule bfsInvI)
  note d = distAt_dist0 [OF s]
  show "rect (dist0 m s) (cols m) (rows m)"
    unfolding dist0_def by (rule rect_setCell [OF rect_blank])
  show "inb m s" by (rule s)
  show "distAt (dist0 m s) s = 0" using d [OF s] by simp
  show "inb m v \<and> distAt (dist0 m s) v \<noteq> - 1" if "v \<in> set [s]" for v
    using that s d [OF s] by simp
  show "0 \<le> distAt (dist0 m s) v \<and> (s, v) \<in> hops m ^^ nat (distAt (dist0 m s) v)
        \<and> (\<forall>n. (s, v) \<in> hops m ^^ n \<longrightarrow> nat (distAt (dist0 m s) v) \<le> n)"
    if "inb m v" "distAt (dist0 m s) v \<noteq> - 1" for v
  proof -
    have "v = s" using that d [OF that(1)] by (simp split: if_splits)
    then show ?thesis using d [OF s] by simp
  qed
  show "sorted (map (distAt (dist0 m s)) [s])" by simp
  show "distAt (dist0 m s) v \<le> distAt (dist0 m s) (hd [s]) + 1" if "v \<in> set [s]" for v
    using that by simp
  show "distAt (dist0 m s) v \<noteq> - 1"
    if "inb m u" "distAt (dist0 m s) u \<noteq> - 1" "u \<notin> set [s]" "(u, v) \<in> hops m" for u v
    using that d [OF that(1)] by (simp split: if_splits)
  show "distAt (dist0 m s) u \<noteq> - 1 \<and> u \<notin> set [s]"
    if "[s] \<noteq> []" "(s, u) \<in> hops m ^^ n" "int n < distAt (dist0 m s) (hd [s])" for u n
    using that d [OF s] by simp
qed

text \<open>What \<open>bfsDistances\<close> returns for a source inside the grid.\<close>

lemma bfsDistances_correct:
  assumes s: "inb m s"
  shows "\<exists>dm. bfsDistances m s = Some (Inr dm) \<and> rect dm (cols m) (rows m)
          \<and> (\<forall>v. inb m v \<longrightarrow>
                (if (s, v) \<in> (hops m)\<^sup>*
                 then 0 \<le> distAt dm v \<and> (s, v) \<in> hops m ^^ nat (distAt dm v)
                      \<and> (\<forall>n. (s, v) \<in> hops m ^^ n \<longrightarrow> nat (distAt dm v) \<le> n)
                 else distAt dm v = - 1))"
proof -
  obtain dm where l: "bfsLoop m (dist0 m s, [s]) = Some (dm, [])" and i: "bfsInv m s (dm, [])"
    using bfsLoop_ends [OF bfsInv_start [OF s]] by blast
  note D = bfsInvD [OF i]
  have reach: "inb m v \<and> distAt dm v \<noteq> - 1" if "(s, v) \<in> (hops m)\<^sup>*" for v
    using that
  proof (induction rule: rtrancl_induct)
    case base
    then show ?case using D(2,3) by simp
  next
    case (step u v)
    have "distAt dm v \<noteq> - 1"
      using D(8) [OF _ _ _ step.hyps(2)] step.IH by simp
    then show ?case using hops_inb [OF step.hyps(2)] by simp
  qed
  have bk: "(s, v) \<in> (hops m)\<^sup>*" if "inb m v" "distAt dm v \<noteq> - 1" for v
    using D(5) [OF that] relpow_imp_rtrancl by blast
  have "if (s, v) \<in> (hops m)\<^sup>*
        then 0 \<le> distAt dm v \<and> (s, v) \<in> hops m ^^ nat (distAt dm v)
             \<and> (\<forall>n. (s, v) \<in> hops m ^^ n \<longrightarrow> nat (distAt dm v) \<le> n)
        else distAt dm v = - 1" if v: "inb m v" for v
  proof (cases "(s, v) \<in> (hops m)\<^sup>*")
    case True
    then show ?thesis using D(5) [OF v] reach [OF True] by simp
  next
    case False
    then show ?thesis using bk [OF v] by auto
  qed
  then show ?thesis
    using l D(1) by (simp add: bfsDistances_unfold [OF s])
qed

text \<open>Between walkable cells a path can be walked backwards.\<close>

lemma hops_links:
  "walk m a \<Longrightarrow> (a, b) \<in> hops m ^^ n \<Longrightarrow> walk m b \<and> (a, b) \<in> links (walk m) ^^ n"
proof (induction n arbitrary: b)
  case 0
  then show ?case by simp
next
  case (Suc n)
  then obtain u where u: "(a, u) \<in> hops m ^^ n" "(u, b) \<in> hops m" by auto
  have wu: "walk m u" and au: "(a, u) \<in> links (walk m) ^^ n"
    using Suc.IH [OF Suc.prems(1) u(1)] by simp_all
  have wb: "walk m b" and "adj4 u b" using u(2) by (simp_all add: hops_def)
  then have "(u, b) \<in> links (walk m)" using wu by (simp add: links_def)
  with au have "(a, b) \<in> links (walk m) ^^ Suc n" by (rule relpow_Suc_I)
  then show ?case using wb by simp
qed

lemma links_hops: "(a, b) \<in> links (walk m) ^^ n \<Longrightarrow> (a, b) \<in> hops m ^^ n"
proof (induction n arbitrary: b)
  case 0
  then show ?case by simp
next
  case (Suc n)
  then obtain u where u: "(a, u) \<in> links (walk m) ^^ n" "(u, b) \<in> links (walk m)" by auto
  have "(u, b) \<in> hops m" using u(2) by (simp add: links_def hops_def)
  with Suc.IH [OF u(1)] show ?case by (rule relpow_Suc_I)
qed

lemma links_relpow_sym: "(a, b) \<in> links P ^^ n \<Longrightarrow> (b, a) \<in> links P ^^ n"
proof (induction n arbitrary: b)
  case 0
  then show ?case by simp
next
  case (Suc n)
  then obtain u where u: "(a, u) \<in> links P ^^ n" "(u, b) \<in> links P" by auto
  have "(b, u) \<in> links P" using u(2) links_sym [of P] by (simp add: symD)
  then show ?case using Suc.IH [OF u(1)] by (rule relpow_Suc_I2)
qed

lemma hops_sym:
  assumes "walk m a" "walk m b" "(a, b) \<in> hops m ^^ n"
  shows "(b, a) \<in> hops m ^^ n"
  using hops_links [OF assms(1,3)] links_relpow_sym links_hops by blast

lemma bfsLoop_unfold:
  "bfsLoop m (dm, q) = (if q \<noteq> [] then bfsLoop m (bfsStep m (dm, q)) else Some (dm, q))"
  unfolding bfsLoop_def by (subst while_option_unfold) simp

text \<open>
  Claim C9. For two walkable cells \<open>a\<close> and \<open>b\<close> both calls return, and the distance
  read at \<open>b\<close> in the map of \<open>a\<close> is the distance read at \<open>a\<close> in the map of \<open>b\<close>: a number
  from 0 on when a chain of walkable cells joins them, \<open>- 1\<close> on both sides when none does.
\<close>

theorem bfs_distance_symmetric:
  assumes "isWalkable m (fst a) (snd a)" and "isWalkable m (fst b) (snd b)"
  shows "\<exists>da db d. bfsDistances m a = Some (Inr da) \<and> bfsDistances m b = Some (Inr db)
           \<and> cellAt da (fst b) (snd b) = Some d \<and> cellAt db (fst a) (snd a) = Some d
           \<and> ((a, b) \<in> (links (walk m))\<^sup>* \<longrightarrow> 0 \<le> d)
           \<and> ((a, b) \<notin> (links (walk m))\<^sup>* \<longrightarrow> d = - 1)"
proof -
  have wa: "walk m a" and wb: "walk m b" using assms by (simp_all add: walk_def)
  have ia: "inb m a" and ib: "inb m b" using wa wb by (simp_all add: walk_inb)
  obtain da where da: "bfsDistances m a = Some (Inr da)" "rect da (cols m) (rows m)"
    and ca: "\<And>v. inb m v \<Longrightarrow>
                (if (a, v) \<in> (hops m)\<^sup>*
                 then 0 \<le> distAt da v \<and> (a, v) \<in> hops m ^^ nat (distAt da v)
                      \<and> (\<forall>n. (a, v) \<in> hops m ^^ n \<longrightarrow> nat (distAt da v) \<le> n)
                 else distAt da v = - 1)"
    using bfsDistances_correct [OF ia] by blast
  obtain db where db: "bfsDistances m b = Some (Inr db)" "rect db (cols m) (rows m)"
    and cb: "\<And>v. inb m v \<Longrightarrow>
                (if (b, v) \<in> (hops m)\<^sup>*
                 then 0 \<le> distAt db v \<and> (b, v) \<in> hops m ^^ nat (distAt db v)
                      \<and> (\<forall>n. (b, v) \<in> hops m ^^ n \<longrightarrow> nat (distAt db v) \<le> n)
                 else distAt db v = - 1)"
    using bfsDistances_correct [OF ib] by blast
  have ra: "cellAt da (fst b) (snd b) = Some (distAt da b)"
    by (rule distAt_cellAt [OF da(2) ib])
  have rb: "cellAt db (fst a) (snd a) = Some (distAt db a)"
    by (rule distAt_cellAt [OF db(2) ia])
  have rev: "(b, a) \<in> (hops m)\<^sup>*" if r: "(a, b) \<in> (hops m)\<^sup>*"
  proof -
    obtain n where "(a, b) \<in> hops m ^^ n" using rtrancl_imp_relpow [OF r] ..
    then have "(b, a) \<in> hops m ^^ n" by (rule hops_sym [OF wa wb])
    then show ?thesis by (rule relpow_imp_rtrancl)
  qed
  have rev': "(a, b) \<in> (hops m)\<^sup>*" if r: "(b, a) \<in> (hops m)\<^sup>*"
  proof -
    obtain n where "(b, a) \<in> hops m ^^ n" using rtrancl_imp_relpow [OF r] ..
    then have "(a, b) \<in> hops m ^^ n" by (rule hops_sym [OF wb wa])
    then show ?thesis by (rule relpow_imp_rtrancl)
  qed
  have lk1: "(a, b) \<in> (hops m)\<^sup>*" if r: "(a, b) \<in> (links (walk m))\<^sup>*"
  proof -
    obtain n where "(a, b) \<in> links (walk m) ^^ n" using rtrancl_imp_relpow [OF r] ..
    then have "(a, b) \<in> hops m ^^ n" by (rule links_hops)
    then show ?thesis by (rule relpow_imp_rtrancl)
  qed
  have lk2: "(a, b) \<in> (links (walk m))\<^sup>*" if r: "(a, b) \<in> (hops m)\<^sup>*"
  proof -
    obtain n where "(a, b) \<in> hops m ^^ n" using rtrancl_imp_relpow [OF r] ..
    then have "(a, b) \<in> links (walk m) ^^ n" using hops_links [OF wa] by blast
    then show ?thesis by (rule relpow_imp_rtrancl)
  qed
  have lk: "(a, b) \<in> (links (walk m))\<^sup>* \<longleftrightarrow> (a, b) \<in> (hops m)\<^sup>*"
    using lk1 lk2 by blast
  show ?thesis
  proof (cases "(a, b) \<in> (hops m)\<^sup>*")
    case True
    have A: "0 \<le> distAt da b" "(a, b) \<in> hops m ^^ nat (distAt da b)"
      "\<And>n. (a, b) \<in> hops m ^^ n \<Longrightarrow> nat (distAt da b) \<le> n"
      using ca [OF ib] True by (simp_all del: split_paired_All)
    have B: "0 \<le> distAt db a" "(b, a) \<in> hops m ^^ nat (distAt db a)"
      "\<And>n. (b, a) \<in> hops m ^^ n \<Longrightarrow> nat (distAt db a) \<le> n"
      using cb [OF ia] rev [OF True] by (simp_all del: split_paired_All)
    have "nat (distAt da b) \<le> nat (distAt db a)"
      by (rule A(3) [OF hops_sym [OF wb wa B(2)]])
    moreover have "nat (distAt db a) \<le> nat (distAt da b)"
      by (rule B(3) [OF hops_sym [OF wa wb A(2)]])
    ultimately have "distAt da b = distAt db a" using A(1) B(1) by simp
    then show ?thesis
      using da(1) db(1) ra rb A(1) True lk by simp
  next
    case False
    then have "(b, a) \<notin> (hops m)\<^sup>*" using rev' by blast
    then have "distAt db a = - 1" using cb [OF ia] by simp
    moreover have "distAt da b = - 1" using ca [OF ib] False by simp
    ultimately show ?thesis
      using da(1) db(1) ra rb False lk by simp
  qed
qed

theorem bfs_distance_symmetric_witness:
  "\<exists>da db. bfsDistances [[0, 0, 1], [1, 0, 0]] (0, 0) = Some (Inr da)
      \<and> bfsDistances [[0, 0, 1], [1, 0, 0]] (2, 1) = Some (Inr db)
      \<and> cellAt da 2 1 = cellAt db 0 0 \<and> cellAt da 2 1 \<noteq> None"
proof -
  have "isWalkable [[0, 0, 1], [1, 0, 0]] (fst (0, 0)) (snd (0, 0))"
    "isWalkable [[0, 0, 1], [1, 0, 0]] (fst (2, 1)) (snd (2, 1))"
    by (simp_all add: isWalkable_def cols_def rows_def cellAt_def)
  from bfs_distance_symmetric [OF this]
  obtain da db d where "bfsDistances [[0, 0, 1], [1, 0, 0]] (0, 0) = Some (Inr da)"
    "bfsDistances [[0, 0, 1], [1, 0, 0]] (2, 1) = Some (Inr db)"
    "cellAt da (fst (2 :: int, 1 :: int)) (snd (2 :: int, 1 :: int)) = Some d"
    "cellAt db (fst (0 :: int, 0 :: int)) (snd (0 :: int, 0 :: int)) = Some d"
    by blast
  then show ?thesis by simp
qed

text \<open>
  Claim C4 as stated fails: with the wall at (0, 0) as the source and the passage (1, 0)
  next to it, the passage gets distance 1.
\<close>

theorem bfs_wall_source_counterexample:
  "\<not> isWalkable [[1, 0]] 0 0 \<and> bfsDistances [[1, 0]] (0, 0) = Some (Inr [[0, 1]])"
  by (simp add: bfsDistances_def setCellJS_def setCell_def bfsLoop_unfold bfsStep_def relax_def
      dirs4_def isWalkable_def cols_def rows_def cellAt_def distAt_def Let_def numeral_2_eq_2)

text \<open>
  Claim C4 as amended. For a source inside the grid that is a wall the call returns a
  map of the size of the grid with 0 at the source, and the search goes on from the
  source as from any other cell: every cell of the grid holds the least number of steps
  of a chain that starts at the source and steps only onto walkable cells, and \<open>- 1\<close>
  where there is no such chain. So every walkable cell next to the source gets 1, and
  when no cell next to the source is walkable, every other cell of the grid keeps \<open>- 1\<close>.
\<close>

theorem bfs_wall_source:
  assumes "inb m s" and "\<not> isWalkable m (fst s) (snd s)"
  shows "\<exists>dm. bfsDistances m s = Some (Inr dm)
           \<and> rect dm (cols m) (rows m)
           \<and> cellAt dm (fst s) (snd s) = Some 0
           \<and> (\<forall>v. inb m v \<longrightarrow>
                (\<exists>d. cellAt dm (fst v) (snd v) = Some d
                   \<and> (if (s, v) \<in> (hops m)\<^sup>*
                      then 0 \<le> d \<and> (s, v) \<in> hops m ^^ nat d
                           \<and> (\<forall>n. (s, v) \<in> hops m ^^ n \<longrightarrow> nat d \<le> n)
                      else d = - 1)))
           \<and> (\<forall>v. adj4 s v \<and> isWalkable m (fst v) (snd v) \<longrightarrow> cellAt dm (fst v) (snd v) = Some 1)
           \<and> ((\<forall>v. adj4 s v \<longrightarrow> \<not> isWalkable m (fst v) (snd v)) \<longrightarrow>
                (\<forall>v. inb m v \<and> v \<noteq> s \<longrightarrow> cellAt dm (fst v) (snd v) = Some (- 1)))"
proof -
  obtain dm where dm: "bfsDistances m s = Some (Inr dm)" "rect dm (cols m) (rows m)"
    and c: "\<And>v. inb m v \<Longrightarrow>
                (if (s, v) \<in> (hops m)\<^sup>*
                 then 0 \<le> distAt dm v \<and> (s, v) \<in> hops m ^^ nat (distAt dm v)
                      \<and> (\<forall>n. (s, v) \<in> hops m ^^ n \<longrightarrow> nat (distAt dm v) \<le> n)
                 else distAt dm v = - 1)"
    using bfsDistances_correct [OF assms(1)] by blast
  note rd = distAt_cellAt [OF dm(2)]
  have "(s, s) \<in> (hops m)\<^sup>*" by simp
  with c [OF assms(1)] have "0 \<le> distAt dm s"
    and "\<forall>n. (s, s) \<in> hops m ^^ n \<longrightarrow> nat (distAt dm s) \<le> n"
    by simp_all
  moreover have "(s, s) \<in> hops m ^^ 0" by simp
  ultimately have "0 \<le> distAt dm s \<and> nat (distAt dm s) \<le> 0"
    by blast
  then have s0: "cellAt dm (fst s) (snd s) = Some 0"
    using rd [OF assms(1)] by simp
  have full: "\<forall>v. inb m v \<longrightarrow>
                (\<exists>d. cellAt dm (fst v) (snd v) = Some d
                   \<and> (if (s, v) \<in> (hops m)\<^sup>*
                      then 0 \<le> d \<and> (s, v) \<in> hops m ^^ nat d
                           \<and> (\<forall>n. (s, v) \<in> hops m ^^ n \<longrightarrow> nat d \<le> n)
                      else d = - 1))"
  proof (intro allI impI)
    fix v assume v: "inb m v"
    show "\<exists>d. cellAt dm (fst v) (snd v) = Some d
            \<and> (if (s, v) \<in> (hops m)\<^sup>*
               then 0 \<le> d \<and> (s, v) \<in> hops m ^^ nat d
                    \<and> (\<forall>n. (s, v) \<in> hops m ^^ n \<longrightarrow> nat d \<le> n)
               else d = - 1)"
      by (rule exI [of _ "distAt dm v"]) (rule conjI [OF rd [OF v] c [OF v]])
  qed
  have n1: "cellAt dm (fst v) (snd v) = Some 1" if v: "adj4 s v" "isWalkable m (fst v) (snd v)" for v
  proof -
    have wv: "walk m v" using v(2) by (simp add: walk_def)
    then have iv: "inb m v" by (rule walk_inb)
    have h: "(s, v) \<in> hops m" using wv v(1) by (simp add: hops_def)
    then have h1: "(s, v) \<in> hops m ^^ 1" by simp
    have r: "(s, v) \<in> (hops m)\<^sup>*" using h by blast
    with c [OF iv] have le0: "0 \<le> distAt dm v"
      and p: "(s, v) \<in> hops m ^^ nat (distAt dm v)"
      and mn: "\<forall>n. (s, v) \<in> hops m ^^ n \<longrightarrow> nat (distAt dm v) \<le> n"
      by simp_all
    have "nat (distAt dm v) \<le> 1" using mn h1 by blast
    with le0 have le: "0 \<le> distAt dm v" "nat (distAt dm v) \<le> 1" by simp_all
    have "distAt dm v \<noteq> 0"
    proof
      assume "distAt dm v = 0"
      then have "v = s" using p by simp
      then show False using v(2) assms(2) by simp
    qed
    then have "distAt dm v = 1" using le by simp
    then show ?thesis using rd [OF iv] by simp
  qed
  have alone: "cellAt dm (fst v) (snd v) = Some (- 1)"
    if no: "\<forall>v. adj4 s v \<longrightarrow> \<not> isWalkable m (fst v) (snd v)" and v: "inb m v" "v \<noteq> s" for v
  proof -
    have "(s, v) \<notin> (hops m)\<^sup>*"
    proof
      assume "(s, v) \<in> (hops m)\<^sup>*"
      then have "s = v \<or> (\<exists>u. (s, u) \<in> hops m)"
        by (rule converse_rtranclE) blast+
      then obtain u where "(s, u) \<in> hops m"
        using v(2) by blast
      then have "adj4 s u" "isWalkable m (fst u) (snd u)"
        by (simp_all add: hops_def walk_def)
      then show False using no by blast
    qed
    then show ?thesis using c [OF v(1)] rd [OF v(1)] by simp
  qed
  have n1': "\<forall>v. adj4 s v \<and> isWalkable m (fst v) (snd v) \<longrightarrow> cellAt dm (fst v) (snd v) = Some 1"
    using n1 by blast
  have alone': "(\<forall>v. adj4 s v \<longrightarrow> \<not> isWalkable m (fst v) (snd v)) \<longrightarrow>
                (\<forall>v. inb m v \<and> v \<noteq> s \<longrightarrow> cellAt dm (fst v) (snd v) = Some (- 1))"
    using alone by blast
  show ?thesis
    by (rule exI [of _ dm]) (intro conjI dm s0 full n1' alone')
qed

theorem bfs_wall_source_witness:
  "\<exists>dm. bfsDistances [[1, 0, 0], [1, 1, 0]] (0, 0) = Some (Inr dm)
     \<and> cellAt dm 0 0 = Some 0 \<and> cellAt dm 1 0 = Some 1
     \<and> (\<exists>d. cellAt dm 2 1 = Some d \<and> 0 \<le> d)"
proof -
  let ?m = "[[1, 0, 0], [1, 1, 0]] :: grid"
  have h: "inb ?m (0, 0)" "\<not> isWalkable ?m (fst (0, 0)) (snd (0, 0))"
    by (simp_all add: inb_def isWalkable_def cols_def rows_def cellAt_def)
  from bfs_wall_source [OF h]
  obtain dm where dm: "bfsDistances ?m (0, 0) = Some (Inr dm)"
    and z: "cellAt dm (fst (0 :: int, 0 :: int)) (snd (0 :: int, 0 :: int)) = Some 0"
    and full: "\<forall>v. inb ?m v \<longrightarrow>
                (\<exists>d. cellAt dm (fst v) (snd v) = Some d
                   \<and> (if ((0, 0), v) \<in> (hops ?m)\<^sup>*
                      then 0 \<le> d \<and> ((0, 0), v) \<in> hops ?m ^^ nat d
                           \<and> (\<forall>n. ((0, 0), v) \<in> hops ?m ^^ n \<longrightarrow> nat d \<le> n)
                      else d = - 1))"
    and n1: "\<forall>v. adj4 (0, 0) v \<and> isWalkable ?m (fst v) (snd v) \<longrightarrow> cellAt dm (fst v) (snd v) = Some 1"
    by (elim exE conjE)
  have w: "walk ?m (1, 0)" "walk ?m (2, 0)" "walk ?m (2, 1)"
    by (simp_all add: walk_def isWalkable_def cols_def rows_def cellAt_def)
  have a: "adj4 (0, 0) (1, 0)" "adj4 (1, 0) (2, 0)" "adj4 (2, 0) (2, 1)"
    by (simp_all add: adj4_iff)
  have "((0, 0), (1, 0)) \<in> hops ?m" "((1, 0), (2, 0)) \<in> hops ?m" "((2, 0), (2, 1)) \<in> hops ?m"
    using w a by (simp_all add: hops_def)
  then have r: "((0, 0), (2, 1)) \<in> (hops ?m)\<^sup>*"
    by (meson rtrancl.rtrancl_into_rtrancl rtrancl.rtrancl_refl)
  have "inb ?m (2, 1)" by (simp add: inb_def cols_def rows_def)
  with full obtain d where "cellAt dm (fst (2 :: int, 1 :: int)) (snd (2 :: int, 1 :: int)) = Some d"
    and "if ((0, 0), (2, 1)) \<in> (hops ?m)\<^sup>*
         then 0 \<le> d \<and> ((0, 0), (2, 1)) \<in> hops ?m ^^ nat d
              \<and> (\<forall>n. ((0, 0), (2, 1)) \<in> hops ?m ^^ n \<longrightarrow> nat d \<le> n)
         else d = - 1"
    by blast
  then have d: "cellAt dm 2 1 = Some d" "0 \<le> d" using r by simp_all
  have "cellAt dm (fst (1 :: int, 0 :: int)) (snd (1 :: int, 0 :: int)) = Some 1"
    by (rule n1 [rule_format]) (simp add: adj4_iff isWalkable_def cols_def rows_def cellAt_def)
  then show ?thesis
    using dm z d by (intro exI [of _ dm]) simp
qed

section \<open>Properties of the placement\<close>

lemma npVisit_measure:
  "npMeasure m (fst (npVisit m c d (q, seen)), snd (npVisit m c d (q, seen)), f)
   \<le> npMeasure m (q, seen, f)"
proof -
  let ?n = "(fst c + fst d, snd c + snd d)"
  show ?thesis
  proof (cases "inb m ?n \<and> ?n \<notin> seen")
    case False
    then show ?thesis
      by (auto simp: npVisit_def Let_def inb_def)
  next
    case True
    have fin: "finite {v. inb m v \<and> v \<notin> seen}"
      by (rule finite_subset [OF _ finite_inb [of m]]) blast
    have "{v. inb m v \<and> v \<notin> insert ?n seen} = {v. inb m v \<and> v \<notin> seen} - {?n}"
      by blast
    moreover have "?n \<in> {v. inb m v \<and> v \<notin> seen}" using True by simp
    ultimately have "card {v. inb m v \<and> v \<notin> insert ?n seen} < card {v. inb m v \<and> v \<notin> seen}"
      using card_Diff1_less [OF fin, of ?n] by simp
    moreover have "npVisit m c d (q, seen) = (q @ [?n], insert ?n seen)"
      using True by (auto simp: npVisit_def Let_def inb_def)
    ultimately show ?thesis
      by (simp add: npMeasure_def)
  qed
qed

lemma npVisit_fold_measure:
  "npMeasure m (fst (fold (npVisit m c) ds (q, seen)), snd (fold (npVisit m c) ds (q, seen)), f)
   \<le> npMeasure m (q, seen, f)"
proof (induction ds arbitrary: q seen)
  case Nil
  then show ?case by simp
next
  case (Cons d ds)
  have "npMeasure m (fst (fold (npVisit m c) ds (npVisit m c d (q, seen))),
          snd (fold (npVisit m c) ds (npVisit m c d (q, seen))), f)
        \<le> npMeasure m (fst (npVisit m c d (q, seen)), snd (npVisit m c d (q, seen)), f)"
    using Cons.IH [of "fst (npVisit m c d (q, seen))" "snd (npVisit m c d (q, seen))"] by simp
  also have "\<dots> \<le> npMeasure m (q, seen, f)"
    by (rule npVisit_measure)
  finally show ?case by simp
qed

lemma npStep_measure:
  assumes "q \<noteq> []"
  shows "npMeasure m (npStep m (q, seen, found)) < npMeasure m (q, seen, found)"
proof (cases "isWalkable m (fst (hd q)) (snd (hd q))")
  case True
  then show ?thesis
    using assms by (simp add: npStep_def Let_def npMeasure_def)
next
  case False
  let ?f = "fold (npVisit m (hd q)) dirs4 (tl q, seen)"
  have "npStep m (q, seen, found) = (fst ?f, snd ?f, None)"
    using False by (simp add: npStep_def Let_def split: prod.splits)
  moreover have "npMeasure m (fst ?f, snd ?f, None) \<le> npMeasure m (tl q, seen, None)"
    by (rule npVisit_fold_measure)
  moreover have "npMeasure m (tl q, seen, None) < npMeasure m (q, seen, found)"
    using assms by (simp add: npMeasure_def)
  ultimately show ?thesis by simp
qed

text \<open>\<open>nearestPassage\<close> always returns: a walkable cell, or else (1, 1).\<close>

lemma nearestPassage_returns:
  "\<exists>r. nearestPassage m x y = Some r \<and> (walk m r \<or> r = (1, 1))"
proof -
  let ?b = "\<lambda>(q, seen, found). q \<noteq> [] \<and> found = (None :: cell option)"
  let ?P = "\<lambda>(q :: cell list, seen :: cell set, found). \<forall>c. found = Some c \<longrightarrow> walk m c"
  let ?s = "([(x, y)], {(x, y)}, None :: cell option)"
  have step: "?P (npStep m st)" if "?P st" "?b st" for st
  proof -
    obtain q seen found where st: "st = (q, seen, found)" by (cases st)
    show ?thesis
      unfolding st
      by (cases "isWalkable m (fst (hd q)) (snd (hd q))")
        (auto simp: npStep_def Let_def walk_def split: prod.splits)
  qed
  have "\<exists>t. while_option ?b (npStep m) ?s = Some t"
  proof (rule measure_while_option_Some [where P = ?P and f = "npMeasure m"])
    fix st :: "cell list \<times> cell set \<times> cell option"
    assume a: "?P st" "?b st"
    obtain q seen found where st: "st = (q, seen, found)" by (cases st)
    have "npMeasure m (npStep m st) < npMeasure m st"
      using a(2) unfolding st by (intro npStep_measure) simp
    then show "?P (npStep m st) \<and> npMeasure m (npStep m st) < npMeasure m st"
      using step [OF a] by simp
  qed simp
  then obtain t where t: "while_option ?b (npStep m) ?s = Some t" ..
  have "?P t"
    by (rule while_option_rule [where P = ?P, OF step t]) simp_all
  then show ?thesis
    using t by (cases t) (auto simp: nearestPassage_def split: option.splits)
qed

lemma in_row:
  "(x, y) \<in> set (map (\<lambda>x. (x, y')) (filter (\<lambda>x. cellAt m x y' = Some 0) [0 .. c]))
   \<longleftrightarrow> y = y' \<and> 0 \<le> x \<and> x \<le> c \<and> cellAt m x y = Some 0"
proof -
  have "(x, y) \<in> set (map (\<lambda>x. (x, y')) (filter (\<lambda>x. cellAt m x y' = Some 0) [0 .. c]))
        \<longleftrightarrow> (x, y) \<in> (\<lambda>x. (x, y')) ` {x \<in> {0 .. c}. cellAt m x y' = Some 0}"
    by (simp only: set_map set_filter set_upto)
  also have "\<dots> \<longleftrightarrow> y = y' \<and> x \<in> {x \<in> {0 .. c}. cellAt m x y' = Some 0}"
    by blast
  also have "\<dots> \<longleftrightarrow> y = y' \<and> 0 \<le> x \<and> x \<le> c \<and> cellAt m x y = Some 0"
    by auto
  finally show ?thesis .
qed

lemma in_rows:
  "(x, y) \<in> set (concat (map f ys)) \<longleftrightarrow> (\<exists>y' \<in> set ys. (x, y) \<in> set (f y'))"
  by (simp only: set_concat set_map) blast

lemma in_getAllPassages:
  "(x, y) \<in> set (getAllPassages m)
   \<longleftrightarrow> 0 \<le> y \<and> y \<le> rows m - 1 \<and> 0 \<le> x \<and> x \<le> cols m - 1 \<and> cellAt m x y = Some 0"
proof -
  have "(x, y) \<in> set (getAllPassages m)
        \<longleftrightarrow> (\<exists>y' \<in> set [0 .. rows m - 1].
               y = y' \<and> 0 \<le> x \<and> x \<le> cols m - 1 \<and> cellAt m x y = Some 0)"
    unfolding getAllPassages_def in_rows in_row ..
  also have "\<dots> \<longleftrightarrow> 0 \<le> y \<and> y \<le> rows m - 1 \<and> 0 \<le> x \<and> x \<le> cols m - 1 \<and> cellAt m x y = Some 0"
    by (simp only: set_upto) auto
  finally show ?thesis .
qed

lemma set_getAllPassages: "set (getAllPassages m) = {c. walk m c}"
proof (rule set_eqI)
  fix c :: cell
  obtain x y where c: "c = (x, y)" by (cases c)
  show "c \<in> set (getAllPassages m) \<longleftrightarrow> c \<in> {c. walk m c}"
    unfolding c in_getAllPassages by (auto simp: walk_def isWalkable_def)
qed

lemma candyScan_eq:
  "candyScan dStart dExit c (best, bs)
   = (if candyOk dStart dExit c \<and> bs < candyScore dStart dExit c
      then (Some c, candyScore dStart dExit c) else (best, bs))"
  by (auto simp: candyScan_def candyOk_def candyScore_def Let_def)

lemma candy_fold:
  "fold (candyScan dStart dExit) ps (best, bs) = (best', bs') \<Longrightarrow>
   bs \<le> bs'
   \<and> (\<forall>c \<in> set ps. candyOk dStart dExit c \<longrightarrow> candyScore dStart dExit c \<le> bs')
   \<and> ((best', bs') = (best, bs)
      \<or> (\<exists>c \<in> set ps. candyOk dStart dExit c \<and> best' = Some c \<and> bs' = candyScore dStart dExit c))"
proof (induction ps arbitrary: best bs)
  case Nil
  then show ?case by simp
next
  case (Cons c ps)
  show ?case
  proof (cases "candyOk dStart dExit c \<and> bs < candyScore dStart dExit c")
    case True
    then have "candyScan dStart dExit c (best, bs) = (Some c, candyScore dStart dExit c)"
      unfolding candyScan_eq by (rule if_P)
    then have "fold (candyScan dStart dExit) ps (Some c, candyScore dStart dExit c) = (best', bs')"
      using Cons.prems by simp
    from Cons.IH [OF this] True show ?thesis by auto
  next
    case False
    then have "candyScan dStart dExit c (best, bs) = (best, bs)"
      unfolding candyScan_eq by (rule if_not_P)
    then have "fold (candyScan dStart dExit) ps (best, bs) = (best', bs')"
      using Cons.prems by simp
    from Cons.IH [OF this] False show ?thesis by auto
  qed
qed





lemma candyScore_ok: "candyOk dStart dExit c \<Longrightarrow> 480 \<le> candyScore dStart dExit c"
  by (simp add: candyOk_def candyScore_def min_def)

lemma chooseCandy_cases:
  assumes "chooseCandy m dStart dExit = Some candy"
  shows "(\<exists>c. walk m c \<and> candyOk dStart dExit c) \<longrightarrow>
           walk m candy \<and> candyOk dStart dExit candy
           \<and> (\<forall>c. walk m c \<and> candyOk dStart dExit c
                  \<longrightarrow> candyScore dStart dExit c \<le> candyScore dStart dExit candy)"
    and "\<not> (\<exists>c. walk m c \<and> candyOk dStart dExit c) \<longrightarrow>
           nearestPassage m (3 * cols m div 10) (3 * rows m div 10) = Some candy"
proof -
  let ?ps = "getAllPassages m"
  let ?init = "case ?ps of [] \<Rightarrow> None | p # _ \<Rightarrow> Some p"
  obtain best bs where f: "fold (candyScan dStart dExit) ?ps (?init, - 1) = (best, bs)"
    by (cases "fold (candyScan dStart dExit) ?ps (?init, - 1)")
  note F = candy_fold [OF f]
  note F2 = conjunct1 [OF conjunct2 [OF F]]
  note F3 = conjunct2 [OF conjunct2 [OF F]]
  have ch: "chooseCandy m dStart dExit
            = (case (0 \<le> bs, best) of (True, Some c) \<Rightarrow> Some c
               | _ \<Rightarrow> nearestPassage m (3 * cols m div 10) (3 * rows m div 10))"
    using f by (simp add: chooseCandy_def Let_def)
  have mem: "c \<in> set ?ps \<longleftrightarrow> walk m c" for c
    by (simp add: set_getAllPassages)
  show "(\<exists>c. walk m c \<and> candyOk dStart dExit c) \<longrightarrow>
           walk m candy \<and> candyOk dStart dExit candy
           \<and> (\<forall>c. walk m c \<and> candyOk dStart dExit c
                  \<longrightarrow> candyScore dStart dExit c \<le> candyScore dStart dExit candy)"
  proof
    assume "\<exists>c. walk m c \<and> candyOk dStart dExit c"
    then obtain c where c: "c \<in> set ?ps" "candyOk dStart dExit c" using mem by blast
    have "candyScore dStart dExit c \<le> bs" using bspec [OF F2 c(1)] c(2) by simp
    then have big: "480 \<le> bs" using candyScore_ok [OF c(2)] by simp
    then have "(best, bs) \<noteq> (?init, - 1)" by simp
    then obtain c' where c': "c' \<in> set ?ps" "candyOk dStart dExit c'" "best = Some c'"
      "bs = candyScore dStart dExit c'"
      using F3 by blast
    have "chooseCandy m dStart dExit = Some c'"
      using big c'(3) by (simp add: ch)
    then have e: "candy = c'" using assms by simp
    have "candyScore dStart dExit x \<le> candyScore dStart dExit c'"
      if x: "walk m x \<and> candyOk dStart dExit x" for x
    proof -
      have xin: "x \<in> set ?ps" using x mem [of x] by simp
      have "candyOk dStart dExit x \<longrightarrow> candyScore dStart dExit x \<le> bs"
        using bspec [OF F2 xin] .
      then show ?thesis using x c'(4) by simp
    qed
    then show "walk m candy \<and> candyOk dStart dExit candy
           \<and> (\<forall>c. walk m c \<and> candyOk dStart dExit c
                  \<longrightarrow> candyScore dStart dExit c \<le> candyScore dStart dExit candy)"
      unfolding e using c'(1,2) mem [of c'] by blast
  qed
  show "\<not> (\<exists>c. walk m c \<and> candyOk dStart dExit c) \<longrightarrow>
           nearestPassage m (3 * cols m div 10) (3 * rows m div 10) = Some candy"
  proof
    assume "\<not> (\<exists>c. walk m c \<and> candyOk dStart dExit c)"
    then have "\<not> (\<exists>c \<in> set ?ps. candyOk dStart dExit c)" using mem by blast
    then have "(best, bs) = (?init, - 1)" using F3 by blast
    then have "bs = - 1" by simp
    then have "chooseCandy m dStart dExit = nearestPassage m (3 * cols m div 10) (3 * rows m div 10)"
      by (simp add: ch)
    then show "nearestPassage m (3 * cols m div 10) (3 * rows m div 10) = Some candy"
      using assms by simp
  qed
qed

lemma chooseCandy_returns:
  "\<exists>candy. chooseCandy m dStart dExit = Some candy \<and> (walk m candy \<or> candy = (1, 1))"
proof -
  let ?ps = "getAllPassages m"
  let ?init = "case ?ps of [] \<Rightarrow> None | p # _ \<Rightarrow> Some p"
  obtain best bs where f: "fold (candyScan dStart dExit) ?ps (?init, - 1) = (best, bs)"
    by (cases "fold (candyScan dStart dExit) ?ps (?init, - 1)")
  note F = candy_fold [OF f]
  have ch: "chooseCandy m dStart dExit
            = (case (0 \<le> bs, best) of (True, Some c) \<Rightarrow> Some c
               | _ \<Rightarrow> nearestPassage m (3 * cols m div 10) (3 * rows m div 10))"
    using f by (simp add: chooseCandy_def Let_def)
  show ?thesis
  proof (cases "0 \<le> bs")
    case True
    then have "(best, bs) \<noteq> (?init, - 1)" by auto
    then obtain c where "c \<in> set ?ps" "best = Some c"
      using conjunct2 [OF conjunct2 [OF F]] by blast
    then show ?thesis using True by (simp add: ch set_getAllPassages)
  next
    case False
    then have "chooseCandy m dStart dExit = nearestPassage m (3 * cols m div 10) (3 * rows m div 10)"
      by (simp add: ch)
    then show ?thesis using nearestPassage_returns [of m "3 * cols m div 10" "3 * rows m div 10"]
      by simp
  qed
qed


lemma placeKeyCells_parts:
  assumes "placeKeyCells m = Some (Inr (start, exit, candy))"
  shows "\<exists>exit0 dStart dExit dCandy.
           nearestPassage m 1 (rows m - 2) = Some start
           \<and> nearestPassage m (cols m - 2) (rows m - 2) = Some exit0
           \<and> bfsDistances m start = Some (Inr dStart)
           \<and> bfsDistances m exit0 = Some (Inr dExit)
           \<and> chooseCandy m dStart dExit = Some candy
           \<and> bfsDistances m candy = Some (Inr dCandy)
           \<and> exit = chooseExit m dCandy exit0"
  using assms
  by (simp add: placeKeyCells_def bindR_def split: option.splits sum.splits
      del: split_paired_Ex split_paired_All)

lemma bfsDistances_returns: "inb m s \<Longrightarrow> \<exists>dm. bfsDistances m s = Some (Inr dm)"
  using bfsDistances_correct [of m s] by blast

lemma placeKeyCells_returns:
  assumes "2 \<le> rows m" "2 \<le> cols m"
  shows "\<exists>start exit candy. placeKeyCells m = Some (Inr (start, exit, candy))"
proof -
  have i: "inb m r" if "walk m r \<or> r = (1, 1)" for r
    using that assms walk_inb [of m r] by (auto simp: inb_def)
  obtain start where s: "nearestPassage m 1 (rows m - 2) = Some start" "inb m start"
    using nearestPassage_returns [of m 1 "rows m - 2"] i by blast
  obtain exit0 where e: "nearestPassage m (cols m - 2) (rows m - 2) = Some exit0" "inb m exit0"
    using nearestPassage_returns [of m "cols m - 2" "rows m - 2"] i by blast
  obtain dStart where ds: "bfsDistances m start = Some (Inr dStart)"
    using bfsDistances_returns [OF s(2)] ..
  obtain dExit where de: "bfsDistances m exit0 = Some (Inr dExit)"
    using bfsDistances_returns [OF e(2)] ..
  obtain candy where c: "chooseCandy m dStart dExit = Some candy" "inb m candy"
    using chooseCandy_returns [of m dStart dExit] i by blast
  obtain dCandy where dc: "bfsDistances m candy = Some (Inr dCandy)"
    using bfsDistances_returns [OF c(2)] ..
  have "placeKeyCells m = Some (Inr (start, chooseExit m dCandy exit0, candy))"
    by (simp add: placeKeyCells_def bindR_def s e ds de c dc)
  then show ?thesis by blast
qed

lemma chooseCandy_passages:
  assumes "chooseCandy m dStart dExit = Some candy"
  shows "((\<exists>c \<in> set (getAllPassages m). 40 \<le> distAt dStart c \<and> 40 \<le> distAt dExit c) \<longrightarrow>
            candy \<in> set (getAllPassages m)
            \<and> 40 \<le> distAt dStart candy \<and> 40 \<le> distAt dExit candy
            \<and> (\<forall>c \<in> set (getAllPassages m).
                  40 \<le> distAt dStart c \<and> 40 \<le> distAt dExit c \<longrightarrow>
                  candyScore dStart dExit c \<le> candyScore dStart dExit candy))
         \<and> (\<not> (\<exists>c \<in> set (getAllPassages m). 40 \<le> distAt dStart c \<and> 40 \<le> distAt dExit c) \<longrightarrow>
            nearestPassage m (3 * cols m div 10) (3 * rows m div 10) = Some candy)"
proof -
  note cc = chooseCandy_cases [OF assms]
  have far: "(\<exists>c \<in> set (getAllPassages m). 40 \<le> distAt dStart c \<and> 40 \<le> distAt dExit c) \<longrightarrow>
                candy \<in> set (getAllPassages m)
                \<and> 40 \<le> distAt dStart candy \<and> 40 \<le> distAt dExit candy
                \<and> (\<forall>c \<in> set (getAllPassages m).
                      40 \<le> distAt dStart c \<and> 40 \<le> distAt dExit c \<longrightarrow>
                      candyScore dStart dExit c \<le> candyScore dStart dExit candy)"
    using cc(1) unfolding candyOk_def set_getAllPassages by blast
  have near: "\<not> (\<exists>c \<in> set (getAllPassages m). 40 \<le> distAt dStart c \<and> 40 \<le> distAt dExit c) \<longrightarrow>
                nearestPassage m (3 * cols m div 10) (3 * rows m div 10) = Some candy"
    using cc(2) unfolding candyOk_def set_getAllPassages by blast
  show ?thesis using far near by (rule conjI)
qed

text \<open>
  Claim C2. The distances are those of the two maps that \<open>placeKeyCells\<close> computes from
  the start cell and from the exit cell as first placed. Once the two maps are there,
  the choice of the candy returns a cell: when some passage cell is at least 40 steps
  away in both maps, the candy cell is such a passage cell and no such cell has a
  greater score; when no passage cell is at least 40 steps away in both maps, the candy
  cell is the result of \<open>nearestPassage\<close> at column \<open>\<lfloor>0.3 * cols\<rfloor>\<close> and row
  \<open>\<lfloor>0.3 * rows\<rfloor>\<close>. The candy cell of every triple that \<open>placeKeyCells\<close> returns is
  chosen in this way, and on a grid of at least two rows and two columns
  \<open>placeKeyCells\<close> returns a triple.
\<close>

theorem candy_maximises_score:
  "(\<forall>start exit0 dStart dExit.
        nearestPassage m 1 (rows m - 2) = Some start
      \<and> nearestPassage m (cols m - 2) (rows m - 2) = Some exit0
      \<and> bfsDistances m start = Some (Inr dStart)
      \<and> bfsDistances m exit0 = Some (Inr dExit) \<longrightarrow>
        (\<exists>candy. chooseCandy m dStart dExit = Some candy
          \<and> ((\<exists>c \<in> set (getAllPassages m). 40 \<le> distAt dStart c \<and> 40 \<le> distAt dExit c) \<longrightarrow>
                candy \<in> set (getAllPassages m)
                \<and> 40 \<le> distAt dStart candy \<and> 40 \<le> distAt dExit candy
                \<and> (\<forall>c \<in> set (getAllPassages m).
                      40 \<le> distAt dStart c \<and> 40 \<le> distAt dExit c \<longrightarrow>
                      candyScore dStart dExit c \<le> candyScore dStart dExit candy))
          \<and> (\<not> (\<exists>c \<in> set (getAllPassages m). 40 \<le> distAt dStart c \<and> 40 \<le> distAt dExit c) \<longrightarrow>
                nearestPassage m (3 * cols m div 10) (3 * rows m div 10) = Some candy)))
   \<and> (\<forall>start exit candy. placeKeyCells m = Some (Inr (start, exit, candy)) \<longrightarrow>
        (\<exists>exit0 dStart dExit.
            nearestPassage m 1 (rows m - 2) = Some start
          \<and> nearestPassage m (cols m - 2) (rows m - 2) = Some exit0
          \<and> bfsDistances m start = Some (Inr dStart)
          \<and> bfsDistances m exit0 = Some (Inr dExit)
          \<and> chooseCandy m dStart dExit = Some candy
          \<and> ((\<exists>c \<in> set (getAllPassages m). 40 \<le> distAt dStart c \<and> 40 \<le> distAt dExit c) \<longrightarrow>
                candy \<in> set (getAllPassages m)
                \<and> 40 \<le> distAt dStart candy \<and> 40 \<le> distAt dExit candy
                \<and> (\<forall>c \<in> set (getAllPassages m).
                      40 \<le> distAt dStart c \<and> 40 \<le> distAt dExit c \<longrightarrow>
                      candyScore dStart dExit c \<le> candyScore dStart dExit candy))
          \<and> (\<not> (\<exists>c \<in> set (getAllPassages m). 40 \<le> distAt dStart c \<and> 40 \<le> distAt dExit c) \<longrightarrow>
                nearestPassage m (3 * cols m div 10) (3 * rows m div 10) = Some candy)))
   \<and> (2 \<le> rows m \<and> 2 \<le> cols m \<longrightarrow>
        (\<exists>start exit candy. placeKeyCells m = Some (Inr (start, exit, candy))))"
proof (intro conjI allI impI)
  fix start exit0 dStart dExit
  obtain candy where c: "chooseCandy m dStart dExit = Some candy"
    using chooseCandy_returns [of m dStart dExit] by blast
  note cp = chooseCandy_passages [OF c]
  show "\<exists>candy. chooseCandy m dStart dExit = Some candy
          \<and> ((\<exists>c \<in> set (getAllPassages m). 40 \<le> distAt dStart c \<and> 40 \<le> distAt dExit c) \<longrightarrow>
                candy \<in> set (getAllPassages m)
                \<and> 40 \<le> distAt dStart candy \<and> 40 \<le> distAt dExit candy
                \<and> (\<forall>c \<in> set (getAllPassages m).
                      40 \<le> distAt dStart c \<and> 40 \<le> distAt dExit c \<longrightarrow>
                      candyScore dStart dExit c \<le> candyScore dStart dExit candy))
          \<and> (\<not> (\<exists>c \<in> set (getAllPassages m). 40 \<le> distAt dStart c \<and> 40 \<le> distAt dExit c) \<longrightarrow>
                nearestPassage m (3 * cols m div 10) (3 * rows m div 10) = Some candy)"
    by (rule exI [of _ candy]) (intro conjI c conjunct1 [OF cp] conjunct2 [OF cp])
next
  fix start exit candy
  assume pk: "placeKeyCells m = Some (Inr (start, exit, candy))"
  obtain exit0 dStart dExit dCandy where p:
    "nearestPassage m 1 (rows m - 2) = Some start"
    "nearestPassage m (cols m - 2) (rows m - 2) = Some exit0"
    "bfsDistances m start = Some (Inr dStart)"
    "bfsDistances m exit0 = Some (Inr dExit)"
    "chooseCandy m dStart dExit = Some candy"
    using placeKeyCells_parts [OF pk] by blast
  note cp = chooseCandy_passages [OF p(5)]
  show "\<exists>exit0 dStart dExit.
            nearestPassage m 1 (rows m - 2) = Some start
          \<and> nearestPassage m (cols m - 2) (rows m - 2) = Some exit0
          \<and> bfsDistances m start = Some (Inr dStart)
          \<and> bfsDistances m exit0 = Some (Inr dExit)
          \<and> chooseCandy m dStart dExit = Some candy
          \<and> ((\<exists>c \<in> set (getAllPassages m). 40 \<le> distAt dStart c \<and> 40 \<le> distAt dExit c) \<longrightarrow>
                candy \<in> set (getAllPassages m)
                \<and> 40 \<le> distAt dStart candy \<and> 40 \<le> distAt dExit candy
                \<and> (\<forall>c \<in> set (getAllPassages m).
                      40 \<le> distAt dStart c \<and> 40 \<le> distAt dExit c \<longrightarrow>
                      candyScore dStart dExit c \<le> candyScore dStart dExit candy))
          \<and> (\<not> (\<exists>c \<in> set (getAllPassages m). 40 \<le> distAt dStart c \<and> 40 \<le> distAt dExit c) \<longrightarrow>
                nearestPassage m (3 * cols m div 10) (3 * rows m div 10) = Some candy)"
    by (rule exI [of _ exit0], rule exI [of _ dStart], rule exI [of _ dExit])
      (intro conjI p(1) p(2) p(3) p(4) p(5) conjunct1 [OF cp] conjunct2 [OF cp])
next
  assume "2 \<le> rows m \<and> 2 \<le> cols m"
  then show "\<exists>start exit candy. placeKeyCells m = Some (Inr (start, exit, candy))"
    using placeKeyCells_returns [of m] by simp
qed

theorem candy_maximises_score_witness:
  "placeKeyCells [replicate 100 0, replicate 100 1] = Some (Inr ((1, 0), (99, 0), (49, 0)))
   \<and> (\<exists>dStart dExit.
         bfsDistances [replicate 100 0, replicate 100 1] (1, 0) = Some (Inr dStart)
       \<and> bfsDistances [replicate 100 0, replicate 100 1] (98, 0) = Some (Inr dExit)
       \<and> (49, 0) \<in> set (getAllPassages [replicate 100 0, replicate 100 1])
       \<and> 40 \<le> distAt dStart (49, 0) \<and> 40 \<le> distAt dExit (49, 0)
       \<and> (\<forall>c \<in> set (getAllPassages [replicate 100 0, replicate 100 1]).
             40 \<le> distAt dStart c \<and> 40 \<le> distAt dExit c \<longrightarrow>
             candyScore dStart dExit c \<le> candyScore dStart dExit (49, 0)))"
proof -
  define C :: grid where "C = [replicate 100 0, replicate 100 1]"
  have pk: "placeKeyCells C = Some (Inr ((1, 0), (99, 0), (49, 0)))"
    unfolding C_def by code_simp
  have np: "nearestPassage C (cols C - 2) (rows C - 2) = Some (98, 0)"
    unfolding C_def by code_simp
  have a: "case bfsDistances C (1, 0) of Some (Inr d) \<Rightarrow> 40 \<le> distAt d (49, 0) | _ \<Rightarrow> False"
    unfolding C_def by code_simp
  have b: "case bfsDistances C (98, 0) of Some (Inr d) \<Rightarrow> 40 \<le> distAt d (49, 0) | _ \<Rightarrow> False"
    unfolding C_def by code_simp
  have w: "(49, 0) \<in> set (getAllPassages C)"
    unfolding C_def by code_simp
  obtain exit0 dStart dExit where p:
    "nearestPassage C (cols C - 2) (rows C - 2) = Some exit0"
    "bfsDistances C (1, 0) = Some (Inr dStart)"
    "bfsDistances C exit0 = Some (Inr dExit)"
    "(\<exists>c \<in> set (getAllPassages C). 40 \<le> distAt dStart c \<and> 40 \<le> distAt dExit c) \<longrightarrow>
       (49, 0) \<in> set (getAllPassages C)
       \<and> 40 \<le> distAt dStart (49, 0) \<and> 40 \<le> distAt dExit (49, 0)
       \<and> (\<forall>c \<in> set (getAllPassages C).
             40 \<le> distAt dStart c \<and> 40 \<le> distAt dExit c \<longrightarrow>
             candyScore dStart dExit c \<le> candyScore dStart dExit (49, 0))"
    using conjunct1 [OF conjunct2 [OF candy_maximises_score [of C]], rule_format, OF pk] by blast
  have e: "exit0 = (98, 0)" using np p(1) by simp
  have a': "40 \<le> distAt dStart (49, 0)" using a p(2) by simp
  have b': "40 \<le> distAt dExit (49, 0)" using b p(3) e by simp
  have "\<exists>c \<in> set (getAllPassages C). 40 \<le> distAt dStart c \<and> 40 \<le> distAt dExit c"
    using w a' b' by (rule_tac bexI [of _ "(49, 0)"]) simp_all
  then have r: "(49, 0) \<in> set (getAllPassages C)
       \<and> 40 \<le> distAt dStart (49, 0) \<and> 40 \<le> distAt dExit (49, 0)
       \<and> (\<forall>c \<in> set (getAllPassages C).
             40 \<le> distAt dStart c \<and> 40 \<le> distAt dExit c \<longrightarrow>
             candyScore dStart dExit c \<le> candyScore dStart dExit (49, 0))"
    using p(4) by (rule_tac mp)
  have "placeKeyCells C = Some (Inr ((1, 0), (99, 0), (49, 0)))
   \<and> (\<exists>dStart dExit.
         bfsDistances C (1, 0) = Some (Inr dStart)
       \<and> bfsDistances C (98, 0) = Some (Inr dExit)
       \<and> (49, 0) \<in> set (getAllPassages C)
       \<and> 40 \<le> distAt dStart (49, 0) \<and> 40 \<le> distAt dExit (49, 0)
       \<and> (\<forall>c \<in> set (getAllPassages C).
             40 \<le> distAt dStart c \<and> 40 \<le> distAt dExit c \<longrightarrow>
             candyScore dStart dExit c \<le> candyScore dStart dExit (49, 0)))"
    using pk p(2) p(3) r unfolding e by blast
  then show ?thesis unfolding C_def .
qed




end
